theory Spec2Isabelle
  imports
    Complex_Main
    "HOL-Library.Word"
    "HOL-Library.Multiset"
    "HOL-Library.Char_ord"
    "HOL-Library.List_Lexorder"
begin

section \<open>Python values and library calls used by generator.py\<close>

text \<open>
  The exceptions that the code of \<^verbatim>\<open>generator.py\<close> and the library calls it makes can
  raise. \<open>OSError\<close> stands for the file-system and decoder errors (FileNotFoundError,
  NotADirectoryError and PIL's UnidentifiedImageError are all subclasses of OSError);
  \<open>CvError\<close> is \<^verbatim>\<open>cv2.error\<close>.
\<close>

datatype error =
  OSError | ValueError | AssertionError | IndexError | ZeroDivisionError | CvError

text \<open>
  Subscription \<^verbatim>\<open>xs[i]\<close> of a list of length \<open>n\<close>: the element \<open>i\<close> for \<open>0 \<le> i < n\<close>, the
  element \<open>n + i\<close> for \<open>-n \<le> i < 0\<close>, and IndexError for every other \<open>i\<close>.
\<close>

definition py_index :: "'a list \<Rightarrow> int \<Rightarrow> error + 'a" where
  "py_index xs i =
     (if 0 \<le> i \<and> i < int (length xs) then Inr (xs ! nat i)
      else if i < 0 \<and> - int (length xs) \<le> i then Inr (xs ! nat (int (length xs) + i))
      else Inl IndexError)"

text \<open>
  \<^verbatim>\<open>range(start, stop, step)\<close> for a step that is not zero (Python raises ValueError for
  step zero; the caller checks it).
\<close>

function py_range :: "int \<Rightarrow> int \<Rightarrow> int \<Rightarrow> int list" where
  "py_range i stop step =
     (if (0 < step \<and> i < stop) \<or> (step < 0 \<and> stop < i)
      then i # py_range (i + step) stop step else [])"
  by pat_completeness auto
termination
  by (relation "measure (\<lambda>(i, stop, step). nat (if 0 < step then stop - i else i - stop))") auto

declare py_range.simps [simp del]

text \<open>\<^verbatim>\<open>int(x)\<close> of a float: truncation towards zero.\<close>

definition py_int :: "real \<Rightarrow> int" where
  "py_int x = (if 0 \<le> x then \<lfloor>x\<rfloor> else \<lceil>x\<rceil>)"

text \<open>\<^verbatim>\<open>max(...)\<close> over a sequence: ValueError when it is empty.\<close>

fun py_max :: "nat list \<Rightarrow> error + nat" where
  "py_max [] = Inl ValueError"
| "py_max (x # xs) = Inr (fold max xs x)"

text \<open>
  \<^verbatim>\<open>os.path.join(a, b)\<close> (posixpath): an absolute \<open>b\<close> replaces \<open>a\<close>; otherwise the two
  are joined by one slash, which is left out when \<open>a\<close> is empty or already ends in one.
\<close>

definition path_join :: "string \<Rightarrow> string \<Rightarrow> string" where
  "path_join a b =
     (if b \<noteq> [] \<and> hd b = CHR ''/'' then b
      else if a = [] \<or> last a = CHR ''/'' then a @ b
      else a @ ''/'' @ b)"

subsection \<open>sklearn's OneHotEncoder\<close>

text \<open>
  \<^verbatim>\<open>lb.fit(column)\<close> stores in \<^verbatim>\<open>categories_[0]\<close> the sorted unique values of the column
  (\<^verbatim>\<open>np.unique\<close>: sort, then drop adjacent repetitions) and raises ValueError for a column
  with no row. Strings are compared code point by code point, a proper prefix first.
\<close>

definition np_unique :: "string list \<Rightarrow> string list" where
  "np_unique xs = remdups_adj (sort xs)"

definition fit :: "string list \<Rightarrow> error + string list" where
  "fit column = (if column = [] then Inl ValueError else Inr (np_unique column))"

fun index_of :: "'a list \<Rightarrow> 'a \<Rightarrow> nat" where
  "index_of [] x = 0"
| "index_of (y # ys) x = (if x = y then 0 else Suc (index_of ys x))"

definition one_hot :: "nat \<Rightarrow> nat \<Rightarrow> real list" where
  "one_hot k j = map (\<lambda>i. if i = j then 1 else 0) [0..<k]"

text \<open>
  \<^verbatim>\<open>lb.transform(column)\<close> with \<^verbatim>\<open>sparse=False\<close> and the default
  \<^verbatim>\<open>handle_unknown='error'\<close>: one dense row per value, with 1.0 at the position of the
  value in the categories and 0.0 elsewhere; ValueError for a column with no row or with a
  value that is not a category.
\<close>

definition encode :: "string list \<Rightarrow> string \<Rightarrow> real list" where
  "encode categories name = one_hot (length categories) (index_of categories name)"

definition transform :: "string list \<Rightarrow> string list \<Rightarrow> error + real list list" where
  "transform categories column =
     (if column = [] then Inl ValueError
      else if list_ex (\<lambda>v. v \<notin> set categories) column then Inl ValueError
      else Inr (map (encode categories) column))"

subsection \<open>Arrays\<close>

text \<open>
  A numpy array of three axes (an image: rows, columns, channels) and of four axes (a batch
  of images): the shape, and the cell at each index.
\<close>

record 'a ndarray3 =
  height :: nat
  width :: nat
  channels :: nat
  at3 :: "nat \<Rightarrow> nat \<Rightarrow> nat \<Rightarrow> 'a"

record 'a ndarray4 =
  slots :: nat
  rows :: nat
  cols :: nat
  chans :: nat
  at4 :: "nat \<Rightarrow> nat \<Rightarrow> nat \<Rightarrow> nat \<Rightarrow> 'a"

definition np_zeros :: "nat \<Rightarrow> nat \<Rightarrow> nat \<Rightarrow> nat \<Rightarrow> real ndarray4" where
  "np_zeros b h w c = \<lparr>slots = b, rows = h, cols = w, chans = c, at4 = (\<lambda>n y x k. 0)\<rparr>"

subsection \<open>The collaborators\<close>

text \<open>
  What the generator reads from outside the program: the directory listing
  (\<^verbatim>\<open>os.listdir\<close>, \<open>None\<close> when the path is missing or not a directory), the image
  decoder (\<^verbatim>\<open>np.asarray(Image.open(p).convert('RGB'))\<close>, \<open>None\<close> when the file cannot be
  decoded), numpy's global random generator (\<^verbatim>\<open>np.random.seed\<close> replaces the state by
  one computed from the seed; \<open>random_interval s m\<close> draws a number of \<open>0..m\<close> and moves
  the state on), the resampled pixels of \<^verbatim>\<open>cv2.resize(img, (w, h), INTER_AREA)\<close>, and the
  rounding of a real result to the nearest float32 and float64.
\<close>

record 'r env =
  listdir :: "string \<Rightarrow> string list option"
  image_open :: "string \<Rightarrow> 8 word ndarray3 option"
  seed_state :: "nat \<Rightarrow> 'r"
  random_interval :: "'r \<Rightarrow> nat \<Rightarrow> nat \<times> 'r"
  cv2_resize :: "real ndarray3 \<Rightarrow> nat \<Rightarrow> nat \<Rightarrow> (nat \<Rightarrow> nat \<Rightarrow> nat \<Rightarrow> real)"
  round32 :: "real \<Rightarrow> real"
  round64 :: "real \<Rightarrow> real"

text \<open>
  \<^verbatim>\<open>np.random.shuffle(x)\<close> of the legacy generator, for a list and for an array of two
  axes alike: for \<open>i\<close> from \<open>len(x) - 1\<close> down to 1, draw \<open>j\<close> in \<open>0..i\<close> and exchange
  \<open>x[i]\<close> and \<open>x[j]\<close>.
\<close>

fun shuffle_from :: "('r \<Rightarrow> nat \<Rightarrow> nat \<times> 'r) \<Rightarrow> nat \<Rightarrow> 'r \<Rightarrow> 'a list \<Rightarrow> 'a list \<times> 'r" where
  "shuffle_from rint 0 s xs = (xs, s)"
| "shuffle_from rint (Suc k) s xs =
     (case rint s (Suc k) of
        (j, s') \<Rightarrow> shuffle_from rint k s' (xs[Suc k := xs ! j, j := xs ! Suc k]))"

definition np_shuffle :: "'r env \<Rightarrow> 'r \<Rightarrow> 'a list \<Rightarrow> 'a list \<times> 'r" where
  "np_shuffle e s xs = shuffle_from (random_interval e) (length xs - 1) s xs"

section \<open>The Generator class\<close>

record generator =
  batch_size :: int
  shuffle_images :: bool
  image_min_side :: int
  classes :: "string list"
  image_paths :: "string list"
  image_labels :: "real list list"
  image_groups :: "string list list"
  label_groups :: "real list list list"

subsection \<open>load_image_paths_labels\<close>

text \<open>
  The two nested loops over the class directories and their files: the paths of all files,
  class by class in listing order, and beside each the name of its class.
\<close>

fun scan_classes :: "'r env \<Rightarrow> string \<Rightarrow> string list \<Rightarrow> error + (string list \<times> string list)" where
  "scan_classes e dataset_path [] = Inr ([], [])"
| "scan_classes e dataset_path (class_name # rest) =
     (let class_path = path_join dataset_path class_name in
      case listdir e class_path of
        None \<Rightarrow> Inl OSError
      | Some files \<Rightarrow>
          (case scan_classes e dataset_path rest of
             Inl err \<Rightarrow> Inl err
           | Inr (paths, names) \<Rightarrow>
               Inr (map (path_join class_path) files @ paths,
                    replicate (length files) class_name @ names)))"

definition load_image_paths_labels :: "'r env \<Rightarrow> generator \<Rightarrow> string \<Rightarrow> error + generator" where
  "load_image_paths_labels e g DATASET_PATH =
     (case listdir e DATASET_PATH of
        None \<Rightarrow> Inl OSError
      | Some listed \<Rightarrow>
          (case fit listed of
             Inl err \<Rightarrow> Inl err
           | Inr categories \<Rightarrow>
               (case scan_classes e DATASET_PATH listed of
                  Inl err \<Rightarrow> Inl err
                | Inr (paths, names) \<Rightarrow>
                    (case transform categories names of
                       Inl err \<Rightarrow> Inl err
                     | Inr labels \<Rightarrow>
                         if length paths = length labels
                         then Inr (g\<lparr>classes := categories, image_paths := paths,
                                    image_labels := labels\<rparr>)
                         else Inl AssertionError))))"

subsection \<open>create_image_groups\<close>

definition make_groups :: "'a list \<Rightarrow> int \<Rightarrow> 'a list list" where
  "make_groups xs b =
     map (\<lambda>i. map (\<lambda>x. xs ! nat (x mod int (length xs))) (py_range i (i + b) 1))
       (py_range 0 (int (length xs)) b)"

definition create_image_groups :: "'r env \<Rightarrow> 'r \<Rightarrow> generator \<Rightarrow> error + (generator \<times> 'r)" where
  "create_image_groups e rng g =
     (let (paths, labels, rng') =
            (if shuffle_images g
             then (let (ps, r1) = np_shuffle e (seed_state e 4321) (image_paths g);
                       (ls, r2) = np_shuffle e (seed_state e 4321) (image_labels g)
                   in (ps, ls, r2))
             else (image_paths g, image_labels g, rng))
      in if batch_size g = 0 then Inl ValueError
         else Inr (g\<lparr>image_paths := paths, image_labels := labels,
                     image_groups := make_groups paths (batch_size g),
                     label_groups := make_groups labels (batch_size g)\<rparr>, rng'))"

subsection \<open>preprocess_image and resize_image\<close>

text \<open>
  \<^verbatim>\<open>[:, :, ::-1].copy()\<close>: the channels in reverse order, in an array of its own.
\<close>

definition reverse_channels :: "'a ndarray3 \<Rightarrow> 'a ndarray3" where
  "reverse_channels a = a\<lparr>at3 := (\<lambda>y x k. at3 a y x (channels a - 1 - k))\<rparr>"

text \<open>
  \<^verbatim>\<open>x.astype(np.float32)\<close> of a uint8 cell is exact; \<^verbatim>\<open>x /= 127.5\<close> and \<^verbatim>\<open>x -= 1.\<close> are
  float32 operations, each rounded, on every cell of the (fresh) array.
\<close>

definition astype_float32 :: "8 word \<Rightarrow> real" where
  "astype_float32 p = real (unat p)"

definition preprocess_pixel :: "'r env \<Rightarrow> 8 word \<Rightarrow> real" where
  "preprocess_pixel e p = round32 e (round32 e (astype_float32 p / 127.5) - 1)"

definition preprocess_image :: "'r env \<Rightarrow> 8 word ndarray3 \<Rightarrow> real ndarray3" where
  "preprocess_image e x =
     \<lparr>height = height x, width = width x, channels = channels x,
      at3 = (\<lambda>r c k. preprocess_pixel e (at3 x r c k))\<rparr>"

text \<open>
  Python's \<open>float(n)\<close> and the float operations \<open>a / b\<close> and \<open>a * b\<close> with an int operand:
  the int is converted to the nearest float64, the result is rounded to the nearest
  float64, and a division by zero raises.
\<close>

definition to_float :: "'r env \<Rightarrow> int \<Rightarrow> real" where
  "to_float e n = round64 e (of_int n)"

definition float_div :: "'r env \<Rightarrow> real \<Rightarrow> int \<Rightarrow> error + real" where
  "float_div e a n = (if n = 0 then Inl ZeroDivisionError else Inr (round64 e (a / to_float e n)))"

definition float_mul :: "'r env \<Rightarrow> int \<Rightarrow> real \<Rightarrow> real" where
  "float_mul e n a = round64 e (to_float e n * a)"

text \<open>\<open>n / d\<close> of two ints: the quotient, correctly rounded.\<close>

definition true_div :: "'r env \<Rightarrow> int \<Rightarrow> int \<Rightarrow> error + real" where
  "true_div e n d = (if d = 0 then Inl ZeroDivisionError else Inr (round64 e (of_int n / of_int d)))"

text \<open>
  \<^verbatim>\<open>cv2.resize\<close> refuses an empty source and a destination size that is not positive; its
  result has the requested rows and columns and the channels of the source.
\<close>

definition resize_image :: "'r env \<Rightarrow> real ndarray3 \<Rightarrow> int \<Rightarrow> error + (real ndarray3 \<times> real \<times> real)" where
  "resize_image e img min_side_len =
     (let h = int (height img); w = int (width img); c = channels img in
      case (if min h w < min_side_len
            then (if h < w then float_div e (to_float e min_side_len) h
                  else float_div e (to_float e min_side_len) w)
            else Inr 1) of
        Inl err \<Rightarrow> Inl err
      | Inr im_scale \<Rightarrow>
          (let new_h = py_int (float_mul e h im_scale);
               new_w = py_int (float_mul e w im_scale)
           in if h = 0 \<or> w = 0 \<or> new_h \<le> 0 \<or> new_w \<le> 0 then Inl CvError
              else
                (case true_div e new_h h of
                   Inl err \<Rightarrow> Inl err
                 | Inr rh \<Rightarrow>
                     (case true_div e new_w w of
                        Inl err \<Rightarrow> Inl err
                      | Inr rw \<Rightarrow>
                          Inr (\<lparr>height = nat new_h, width = nat new_w, channels = c,
                                at3 = cv2_resize e img (nat new_w) (nat new_h)\<rparr>, rh, rw)))))"

subsection \<open>load_images and construct_image_batch\<close>

fun load_images :: "'r env \<Rightarrow> generator \<Rightarrow> string list \<Rightarrow> error + real ndarray3 list" where
  "load_images e g [] = Inr []"
| "load_images e g (image_path # rest) =
     (case image_open e image_path of
        None \<Rightarrow> Inl OSError
      | Some decoded \<Rightarrow>
          (case resize_image e (preprocess_image e (reverse_channels decoded)) (image_min_side g) of
             Inl err \<Rightarrow> Inl err
           | Inr (img, rh, rw) \<Rightarrow>
               (case load_images e g rest of
                  Inl err \<Rightarrow> Inl err
                | Inr images \<Rightarrow> Inr (img # images))))"

text \<open>
  The loop \<^verbatim>\<open>image_batch[image_index, :h, :w, :c] = image\<close> over the enumerated group. An
  index past the first axis raises IndexError; a slice is cut at the axis, and an image
  that does not fit the cut region raises ValueError.
\<close>

fun copy_images :: "nat \<Rightarrow> real ndarray3 list \<Rightarrow> real ndarray4 \<Rightarrow> error + real ndarray4" where
  "copy_images image_index [] image_batch = Inr image_batch"
| "copy_images image_index (img # rest) image_batch =
     (if slots image_batch \<le> image_index then Inl IndexError
      else if rows image_batch < height img \<or> cols image_batch < width img
              \<or> chans image_batch < channels img then Inl ValueError
      else copy_images (Suc image_index) rest
             (image_batch\<lparr>at4 := (\<lambda>n y x k.
                if n = image_index \<and> y < height img \<and> x < width img \<and> k < channels img
                then at3 img y x k else at4 image_batch n y x k)\<rparr>))"

definition construct_image_batch :: "generator \<Rightarrow> real ndarray3 list \<Rightarrow> error + real ndarray4" where
  "construct_image_batch g image_group =
     (case py_max (map height image_group) of
        Inl err \<Rightarrow> Inl err
      | Inr max_h \<Rightarrow>
          (case py_max (map width image_group) of
             Inl err \<Rightarrow> Inl err
           | Inr max_w \<Rightarrow>
               (case py_max (map channels image_group) of
                  Inl err \<Rightarrow> Inl err
                | Inr max_c \<Rightarrow>
                    if batch_size g < 0 then Inl ValueError
                    else copy_images 0 image_group
                           (np_zeros (nat (batch_size g)) max_h max_w max_c))))"

subsection \<open>The sequence interface and the constructor\<close>

text \<open>\<^verbatim>\<open>__len__\<close>, \<^verbatim>\<open>__getitem__\<close> and \<^verbatim>\<open>__init__\<close>. A method returns the object beside its
  result wherever the object is what the caller goes on with.\<close>

definition generator_len :: "generator \<Rightarrow> int" where
  "generator_len g = int (length (image_groups g))"

definition generator_getitem ::
  "'r env \<Rightarrow> generator \<Rightarrow> int \<Rightarrow> error + ((real ndarray4 \<times> real list list) \<times> generator)" where
  "generator_getitem e g i =
     (case py_index (image_groups g) i of
        Inl err \<Rightarrow> Inl err
      | Inr image_group \<Rightarrow>
          (case py_index (label_groups g) i of
             Inl err \<Rightarrow> Inl err
           | Inr label_group \<Rightarrow>
               (case load_images e g image_group of
                  Inl err \<Rightarrow> Inl err
                | Inr images \<Rightarrow>
                    (case construct_image_batch g images of
                       Inl err \<Rightarrow> Inl err
                     | Inr image_batch \<Rightarrow> Inr ((image_batch, label_group), g)))))"

definition generator_init ::
  "'r env \<Rightarrow> 'r \<Rightarrow> string \<Rightarrow> int \<Rightarrow> bool \<Rightarrow> int \<Rightarrow> error + (generator \<times> 'r)" where
  "generator_init e rng DATASET_PATH BATCH_SIZE shuffle min_side =
     (let g = \<lparr>batch_size = BATCH_SIZE, shuffle_images = shuffle, image_min_side = min_side,
               classes = [], image_paths = [], image_labels = [],
               image_groups = [], label_groups = []\<rparr>
      in case load_image_paths_labels e g DATASET_PATH of
           Inl err \<Rightarrow> Inl err
         | Inr g' \<Rightarrow> create_image_groups e rng g')"

section \<open>What the properties assume of the collaborators\<close>

text \<open>A draw \<open>random_interval s m\<close> lies in \<open>0..m\<close>.\<close>

definition draws_in_range :: "'r env \<Rightarrow> bool" where
  "draws_in_range e = (\<forall>s m. fst (random_interval e s m) \<le> m)"

text \<open>
  Rounding to the nearest float32 is monotone and leaves the integers up to \<open>2^24\<close>, which
  are float32 numbers, as they are.
\<close>

definition rounds_to_float32 :: "'r env \<Rightarrow> bool" where
  "rounds_to_float32 e =
     ((\<forall>x y. x \<le> y \<longrightarrow> round32 e x \<le> round32 e y) \<and>
      (\<forall>n::int. \<bar>n\<bar> \<le> 2 ^ 24 \<longrightarrow> round32 e (of_int n) = of_int n))"

text \<open>
  Rounding to the nearest float64 leaves the integers up to \<open>2^53\<close> as they are, and moves
  a number of the normal range by at most the relative error \<open>2^-53\<close>.
\<close>

definition rounds_to_float64 :: "'r env \<Rightarrow> bool" where
  "rounds_to_float64 e =
     ((\<forall>n::int. \<bar>n\<bar> \<le> 2 ^ 53 \<longrightarrow> round64 e (of_int n) = of_int n) \<and>
      (\<forall>x. 1 \<le> x \<and> x \<le> 2 ^ 1000 \<longrightarrow> \<bar>round64 e x - x\<bar> \<le> x / 2 ^ 53))"

section \<open>A sample data set\<close>

text \<open>
  A directory \<^verbatim>\<open>data\<close> with the classes \<^verbatim>\<open>dog\<close> (three files) and \<^verbatim>\<open>cat\<close> (two files),
  listed in that order, one file of \<^verbatim>\<open>cat\<close> not an image. The images differ in size. The
  random generator is a linear congruential one, the resampling takes the nearest source
  cell, and every arithmetic result is taken to be representable (no rounding).
\<close>

definition sample_listdir :: "string \<Rightarrow> string list option" where
  "sample_listdir p =
     (if p = ''data'' then Some [''dog'', ''cat'']
      else if p = ''data/dog'' then Some [''d1'', ''d2'', ''d3'']
      else if p = ''data/cat'' then Some [''c1'', ''c2'']
      else None)"

definition sample_image :: "nat \<Rightarrow> nat \<Rightarrow> 8 word ndarray3" where
  "sample_image h w =
     \<lparr>height = h, width = w, channels = 3,
      at3 = (\<lambda>y x k. if k = 0 then 0 else if k = 1 then 51 else 255)\<rparr>"

definition sample_image_open :: "string \<Rightarrow> 8 word ndarray3 option" where
  "sample_image_open p =
     (if p = ''data/dog/d1'' then Some (sample_image 30 40)
      else if p = ''data/dog/d2'' then Some (sample_image 12 36)
      else if p = ''data/dog/d3'' then Some (sample_image 25 24)
      else if p = ''data/cat/c1'' then Some (sample_image 48 16)
      else None)"

definition sample_random_interval :: "int \<Rightarrow> nat \<Rightarrow> nat \<times> int" where
  "sample_random_interval s m =
     (let s' = (1103515245 * s + 12345) mod 2147483648 in (nat (s' mod (int m + 1)), s'))"

definition nearest_cell :: "real ndarray3 \<Rightarrow> nat \<Rightarrow> nat \<Rightarrow> nat \<Rightarrow> nat \<Rightarrow> nat \<Rightarrow> real" where
  "nearest_cell img w h y x k = at3 img (y * height img div h) (x * width img div w) k"

definition sample_env :: "int env" where
  "sample_env =
     \<lparr>listdir = sample_listdir, image_open = sample_image_open,
      seed_state = int, random_interval = sample_random_interval,
      cv2_resize = nearest_cell, round32 = (\<lambda>x. x), round64 = (\<lambda>x. x)\<rparr>"

text \<open>The same directory with its classes listed in the other order.\<close>

definition sample_env_relisted :: "int env" where
  "sample_env_relisted =
     sample_env\<lparr>listdir := (\<lambda>p. if p = ''data'' then Some [''cat'', ''dog'']
                                 else sample_listdir p)\<rparr>"

definition sample_generator :: "bool \<Rightarrow> generator" where
  "sample_generator shuffle =
     \<lparr>batch_size = 2, shuffle_images = shuffle, image_min_side = 24,
      classes = [''cat'', ''dog''],
      image_paths = [''data/dog/d1'', ''data/dog/d2'', ''data/dog/d3'',
                     ''data/cat/c1'', ''data/cat/c2''],
      image_labels = [[0, 1], [0, 1], [0, 1], [1, 0], [1, 0]],
      image_groups = [], label_groups = []\<rparr>"

text \<open>Two images of different shapes, as \<open>load_images\<close> could return them.\<close>

definition sample_group :: "real ndarray3 list" where
  "sample_group =
     [\<lparr>height = 1, width = 2, channels = 3, at3 = (\<lambda>y x k. 1)\<rparr>,
      \<lparr>height = 2, width = 1, channels = 3, at3 = (\<lambda>y x k. - 1)\<rparr>]"

text \<open>The generator that the constructor returns for the sample directory, unshuffled.\<close>

definition sample_constructed :: generator where
  "sample_constructed =
     \<lparr>batch_size = 2, shuffle_images = False, image_min_side = 24,
      classes = [''cat'', ''dog''],
      image_paths = [''data/dog/d1'', ''data/dog/d2'', ''data/dog/d3'',
                     ''data/cat/c1'', ''data/cat/c2''],
      image_labels = [[0, 1], [0, 1], [0, 1], [1, 0], [1, 0]],
      image_groups = [[''data/dog/d1'', ''data/dog/d2''], [''data/dog/d3'', ''data/cat/c1''],
                      [''data/cat/c2'', ''data/dog/d1'']],
      label_groups = [[[0, 1], [0, 1]], [[0, 1], [1, 0]], [[1, 0], [0, 1]]]\<rparr>"

section \<open>Properties\<close>

subsection \<open>Ranges and groups\<close>

lemma py_range_pos:
  "0 < step \<Longrightarrow>
   py_range i stop step = map (\<lambda>k. i + int k * step) [0..<nat ((stop - i + step - 1) div step)]"
proof (induction i stop step rule: py_range.induct)
  case (1 i stop step)
  show ?case
  proof (cases "i < stop")
    case True
    define n' where "n' = nat ((stop - (i + step) + step - 1) div step)"
    have "stop - i + step - 1 = (stop - (i + step) + step - 1) + step" by simp
    then have eq: "(stop - i + step - 1) div step = (stop - (i + step) + step - 1) div step + 1"
      using 1(2) by (simp only: div_add_self2)
    have nonneg: "0 \<le> (stop - (i + step) + step - 1) div step"
      using 1(2) True by (simp add: pos_imp_zdiv_nonneg_iff)
    have n: "nat ((stop - i + step - 1) div step) = Suc n'"
      using eq nonneg by (simp add: n'_def nat_add_distrib)
    have ih: "py_range (i + step) stop step = map (\<lambda>k. i + step + int k * step) [0..<n']"
      using 1 True by (simp add: n'_def)
    have "py_range i stop step = i # py_range (i + step) stop step"
      using True 1(2) by (subst py_range.simps) simp
    also have "\<dots> = map (\<lambda>k. i + int k * step) (0 # map Suc [0..<n'])"
      by (simp add: ih algebra_simps)
    also have "0 # map Suc [0..<n'] = [0..<Suc n']"
      by (simp add: upt_conv_Cons map_Suc_upt del: upt_Suc)
    finally show ?thesis by (simp only: n)
  next
    case False
    have "(stop - i + step - 1) div step \<le> (step - 1) div step"
      using 1(2) False by (intro zdiv_mono1) simp_all
    also have "(step - 1) div step = 0" using 1(2) by simp
    finally have "(stop - i + step - 1) div step \<le> 0" .
    then show ?thesis using False 1(2) by (subst py_range.simps) simp
  qed
qed

lemma round_up_div: "0 < (b::int) \<Longrightarrow> (n + b - 1) div b = - ((- n) div b)"
proof -
  assume b: "0 < b"
  have n: "n = b * (n div b) + n mod b" by simp
  have r: "0 \<le> n mod b" "n mod b < b" using b by simp_all
  show ?thesis
  proof (cases "n mod b = 0")
    case True
    have "n + b - 1 = b * (n div b) + (b - 1)" using n True by simp
    then have "(n + b - 1) div b = n div b"
      using b by (intro int_div_pos_eq[where r = "b - 1"]) simp_all
    then show ?thesis using b True by (simp add: zdiv_zminus1_eq_if)
  next
    case False
    have "n + b - 1 = b * (n div b + 1) + (n mod b - 1)"
      using n by (simp add: algebra_simps)
    then have "(n + b - 1) div b = n div b + 1"
      using b r False by (intro int_div_pos_eq[where r = "n mod b - 1"]) simp_all
    then show ?thesis using b False by (simp add: zdiv_zminus1_eq_if)
  qed
qed

lemma round_up_div_ceiling:
  "0 < b \<Longrightarrow> (n + b - 1) div b = \<lceil>real_of_int n / real_of_int b\<rceil>"
  by (simp add: round_up_div ceiling_divide_eq_div)

lemma length_make_groups:
  "0 < b \<Longrightarrow> int (length (make_groups xs b)) = \<lceil>real (length xs) / real_of_int b\<rceil>"
proof -
  assume b: "0 < b"
  have "0 \<le> (int (length xs) + b - 1) div b"
    using b by (simp add: pos_imp_zdiv_nonneg_iff)
  then show ?thesis
    using b round_up_div_ceiling[of b "int (length xs)"]
    by (simp add: make_groups_def py_range_pos)
qed

lemma nth_make_groups:
  assumes "0 < b" "k < length (make_groups xs b)"
  shows "make_groups xs b ! k = map (\<lambda>j. xs ! ((k * nat b + j) mod length xs)) [0..<nat b]"
proof -
  have k: "k < nat ((int (length xs) + b - 1) div b)"
    using assms by (simp add: make_groups_def py_range_pos)
  have "nat ((int k * b + int j) mod int (length xs)) = (k * nat b + j) mod length xs" for j
  proof -
    have "int k * b + int j = int (k * nat b + j)" using assms(1) by simp
    then show ?thesis by (simp only: zmod_int[symmetric] nat_int)
  qed
  then show ?thesis
    using assms(1) k
    by (simp add: make_groups_def py_range_pos)
qed

lemma length_shuffle_from: "length (fst (shuffle_from rint k s xs)) = length xs"
  by (induction k arbitrary: s xs) (auto split: prod.splits)

lemma length_np_shuffle: "length (fst (np_shuffle e s xs)) = length xs"
  by (simp add: np_shuffle_def length_shuffle_from)

lemma create_image_groups_Inr:
  "batch_size g \<noteq> 0 \<Longrightarrow>
   create_image_groups e rng g =
     Inr (g\<lparr>image_paths := (if shuffle_images g then fst (np_shuffle e (seed_state e 4321) (image_paths g)) else image_paths g),
            image_labels := (if shuffle_images g then fst (np_shuffle e (seed_state e 4321) (image_labels g)) else image_labels g),
            image_groups := make_groups (if shuffle_images g then fst (np_shuffle e (seed_state e 4321) (image_paths g)) else image_paths g) (batch_size g),
            label_groups := make_groups (if shuffle_images g then fst (np_shuffle e (seed_state e 4321) (image_labels g)) else image_labels g) (batch_size g)\<rparr>,
          if shuffle_images g then snd (np_shuffle e (seed_state e 4321) (image_labels g)) else rng)"
  by (simp add: create_image_groups_def Let_def split: prod.splits)

text \<open>
  Claim C1. For a batch size \<open>B \<ge> 1\<close> and a sample set of \<open>N\<close> paths and \<open>N\<close> labels,
  \<open>create_image_groups\<close> returns, its \<open>__len__\<close> is \<open>\<lceil>N / B\<rceil>\<close>, there are as many label
  groups as image groups, and the group of index \<open>k\<close> holds exactly \<open>B\<close> entries: those at
  the positions \<open>(k * B + j) mod N\<close>, \<open>j = 0, ..., B - 1\<close>, of the (shuffled) sample set, so
  the last group wraps around to the first samples.
\<close>

theorem batches_wrap_around:
  assumes "0 < batch_size g" and "length (image_labels g) = length (image_paths g)"
  shows "\<exists>g' rng'. create_image_groups e rng g = Inr (g', rng') \<and>
           length (image_paths g') = length (image_paths g) \<and>
           length (image_labels g') = length (image_paths g) \<and>
           generator_len g' = \<lceil>real (length (image_paths g)) / real_of_int (batch_size g)\<rceil> \<and>
           length (label_groups g') = length (image_groups g') \<and>
           (\<forall>k < length (image_groups g').
              length (image_groups g' ! k) = nat (batch_size g) \<and>
              image_groups g' ! k =
                map (\<lambda>j. image_paths g' ! ((k * nat (batch_size g) + j) mod length (image_paths g)))
                  [0..<nat (batch_size g)] \<and>
              label_groups g' ! k =
                map (\<lambda>j. image_labels g' ! ((k * nat (batch_size g) + j) mod length (image_paths g)))
                  [0..<nat (batch_size g)])"
proof -
  define ps where "ps = (if shuffle_images g then fst (np_shuffle e (seed_state e 4321) (image_paths g)) else image_paths g)"
  define ls where "ls = (if shuffle_images g then fst (np_shuffle e (seed_state e 4321) (image_labels g)) else image_labels g)"
  have lp: "length ps = length (image_paths g)" by (simp add: ps_def length_np_shuffle)
  have ll: "length ls = length (image_paths g)" by (simp add: ls_def length_np_shuffle assms(2))
  have len: "length (make_groups ls (batch_size g)) = length (make_groups ps (batch_size g))"
    using length_make_groups[OF assms(1), of ls] length_make_groups[OF assms(1), of ps]
    by (simp add: lp ll)
  show ?thesis
    apply (subst create_image_groups_Inr)
    using assms(1) apply simp
    apply (intro exI conjI)
          apply (rule refl)
    using lp ll len length_make_groups[OF assms(1), of ps] nth_make_groups[OF assms(1), of _ ps] nth_make_groups[OF assms(1), of _ ls]
         apply (simp_all add: generator_len_def ps_def[symmetric] ls_def[symmetric])
    done
qed

theorem batches_wrap_around_witness:
  "\<exists>g' rng'. create_image_groups sample_env 7 (sample_generator False) = Inr (g', rng') \<and>
     generator_len g' = 3 \<and>
     image_groups g' ! 2 = [''data/cat/c2'', ''data/dog/d1''] \<and>
     label_groups g' ! 2 = [[1, 0], [0, 1]]"
proof -
  have b: "0 < batch_size (sample_generator False)"
    and l: "length (image_labels (sample_generator False)) = length (image_paths (sample_generator False))"
    by (simp_all add: sample_generator_def)
  obtain g' rng' where g': "create_image_groups sample_env 7 (sample_generator False) = Inr (g', rng')"
    and paths: "length (image_paths g') = length (image_paths (sample_generator False))"
    and n: "generator_len g' = \<lceil>real (length (image_paths (sample_generator False))) / real_of_int (batch_size (sample_generator False))\<rceil>"
    and groups: "\<forall>k < length (image_groups g').
              length (image_groups g' ! k) = nat (batch_size (sample_generator False)) \<and>
              image_groups g' ! k =
                map (\<lambda>j. image_paths g' ! ((k * nat (batch_size (sample_generator False)) + j) mod length (image_paths (sample_generator False))))
                  [0..<nat (batch_size (sample_generator False))] \<and>
              label_groups g' ! k =
                map (\<lambda>j. image_labels g' ! ((k * nat (batch_size (sample_generator False)) + j) mod length (image_paths (sample_generator False))))
                  [0..<nat (batch_size (sample_generator False))]"
    using batches_wrap_around[OF b l, of sample_env 7] by blast
  have g'_eq: "image_paths g' = image_paths (sample_generator False)" "image_labels g' = image_labels (sample_generator False)"
    using g' by (auto simp: create_image_groups_def sample_generator_def Let_def)
  have n3: "generator_len g' = 3" using n by (simp add: sample_generator_def)
  then have "2 < length (image_groups g')" by (simp add: generator_len_def)
  with groups have "image_groups g' ! 2 =
                map (\<lambda>j. image_paths g' ! ((2 * nat (batch_size (sample_generator False)) + j) mod length (image_paths (sample_generator False))))
                  [0..<nat (batch_size (sample_generator False))]"
     "label_groups g' ! 2 =
                map (\<lambda>j. image_labels g' ! ((2 * nat (batch_size (sample_generator False)) + j) mod length (image_paths (sample_generator False))))
                  [0..<nat (batch_size (sample_generator False))]"
    by blast+
  then have "image_groups g' ! 2 = [''data/cat/c2'', ''data/dog/d1'']" "label_groups g' ! 2 = [[1, 0], [0, 1]]"
    unfolding g'_eq by (simp_all add: sample_generator_def upt_conv_Cons)
  with g' n3 show ?thesis by blast
qed

subsection \<open>The encoder\<close>

lemma distinct_remdups_adj_sorted: "sorted xs \<Longrightarrow> distinct (remdups_adj xs)"
  by (induction xs rule: remdups_adj.induct) (auto simp: less_le)

lemma np_unique_props:
  "sorted (np_unique xs)" "distinct (np_unique xs)" "set (np_unique xs) = set xs"
  unfolding np_unique_def by (simp_all add: distinct_remdups_adj_sorted)

lemma np_unique_sorted_list: "np_unique xs = sorted_list_of_set (set xs)"
  by (rule sorted_distinct_set_unique) (simp_all add: np_unique_props)

lemma index_of_less: "x \<in> set xs \<Longrightarrow> index_of xs x < length xs"
  by (induction xs) auto

lemma nth_index_of: "x \<in> set xs \<Longrightarrow> xs ! index_of xs x = x"
  by (induction xs) auto

lemma index_of_nth: "distinct xs \<Longrightarrow> k < length xs \<Longrightarrow> index_of xs (xs ! k) = k"
  by (induction xs arbitrary: k) (auto simp: nth_Cons split: nat.splits)

lemma inj_on_index_of: "inj_on (index_of xs) (set xs)"
  by (metis inj_onI nth_index_of)

lemma bij_betw_index_of: "distinct xs \<Longrightarrow> bij_betw (index_of xs) (set xs) {0..<length xs}"
  by (rule bij_betw_byWitness[where f' = "\<lambda>k. xs ! k"])
     (auto simp: index_of_less nth_index_of index_of_nth)

lemma length_one_hot: "length (one_hot k j) = k"
  by (simp add: one_hot_def)

lemma nth_one_hot: "i < k \<Longrightarrow> one_hot k j ! i = (if i = j then 1 else 0)"
  by (simp add: one_hot_def)

lemma one_hot_inj: "i < k \<Longrightarrow> one_hot k i = one_hot k j \<Longrightarrow> i = j"
  by (metis nth_one_hot zero_neq_one)

lemma scan_classes_Inr:
  "scan_classes e p cs = Inr (paths, names) \<Longrightarrow> length paths = length names \<and> set names \<subseteq> set cs"
  by (induction cs arbitrary: paths names) (auto simp: Let_def split: option.splits sum.splits)

subsection \<open>The directory scan\<close>

lemma load_image_paths_labels_Inr:
  assumes "load_image_paths_labels e g p = Inr g'"
  shows "\<exists>listed paths names.
           listdir e p = Some listed \<and> listed \<noteq> [] \<and>
           scan_classes e p listed = Inr (paths, names) \<and> names \<noteq> [] \<and>
           length paths = length names \<and> set names \<subseteq> set listed \<and>
           g' = g\<lparr>classes := np_unique listed, image_paths := paths,
                  image_labels := map (encode (np_unique listed)) names\<rparr>"
  using assms scan_classes_Inr[of e p]
  unfolding load_image_paths_labels_def fit_def transform_def
  by (auto split: option.splits sum.splits if_splits prod.splits)

lemma load_image_paths_labels_success:
  assumes "listdir e p = Some listed" "listed \<noteq> []"
    "scan_classes e p listed = Inr (paths, names)" "names \<noteq> []"
  shows "load_image_paths_labels e g p =
           Inr (g\<lparr>classes := np_unique listed, image_paths := paths,
                  image_labels := map (encode (np_unique listed)) names\<rparr>)"
  using assms scan_classes_Inr[OF assms(3)]
  unfolding load_image_paths_labels_def fit_def transform_def
  by (auto simp: list_ex_iff np_unique_props)

subsection \<open>The sample data set, evaluated\<close>

lemma sample_listing: "listdir sample_env ''data'' = Some [''dog'', ''cat'']"
  by (simp add: sample_env_def sample_listdir_def)

lemma sample_scan:
  "scan_classes sample_env ''data'' [''dog'', ''cat''] =
     Inr ([''data/dog/d1'', ''data/dog/d2'', ''data/dog/d3'', ''data/cat/c1'', ''data/cat/c2''],
          [''dog'', ''dog'', ''dog'', ''cat'', ''cat''])"
  by (simp add: sample_env_def sample_listdir_def path_join_def)

lemma sample_unique: "np_unique [''dog'', ''cat''] = [''cat'', ''dog'']"
  by code_simp

lemma sample_load:
  "load_image_paths_labels sample_env g ''data'' =
     Inr (g\<lparr>classes := [''cat'', ''dog''],
            image_paths := [''data/dog/d1'', ''data/dog/d2'', ''data/dog/d3'',
                            ''data/cat/c1'', ''data/cat/c2''],
            image_labels := [[0, 1], [0, 1], [0, 1], [1, 0], [1, 0]]\<rparr>)"
  by (subst load_image_paths_labels_success[OF sample_listing _ sample_scan])
     (simp_all add: sample_unique encode_def one_hot_def upt_conv_Cons)

lemma sample_relisting: "listdir sample_env_relisted ''data'' = Some [''cat'', ''dog'']"
  by (simp add: sample_env_relisted_def)

lemma sample_rescan:
  "scan_classes sample_env_relisted ''data'' [''cat'', ''dog''] =
     Inr ([''data/cat/c1'', ''data/cat/c2'', ''data/dog/d1'', ''data/dog/d2'', ''data/dog/d3''],
          [''cat'', ''cat'', ''dog'', ''dog'', ''dog''])"
  by (simp add: sample_env_relisted_def sample_listdir_def path_join_def)

lemma sample_reunique: "np_unique [''cat'', ''dog''] = [''cat'', ''dog'']"
  by code_simp

lemma sample_reload:
  "load_image_paths_labels sample_env_relisted g ''data'' =
     Inr (g\<lparr>classes := [''cat'', ''dog''],
            image_paths := [''data/cat/c1'', ''data/cat/c2'', ''data/dog/d1'',
                            ''data/dog/d2'', ''data/dog/d3''],
            image_labels := [[1, 0], [1, 0], [0, 1], [0, 1], [0, 1]]\<rparr>)"
  by (subst load_image_paths_labels_success[OF sample_relisting _ sample_rescan])
     (simp_all add: sample_reunique encode_def one_hot_def upt_conv_Cons)

text \<open>
  Claim C10. The classes of a constructed generator are the names of the listed class
  directories in sorted order, whatever the order of the listing: the one-hot vector of a
  class \<open>c\<close> has its 1 at position \<open>k\<close> exactly when \<open>c\<close> is the \<open>k\<close>-th name in sorted
  order. Two generators whose listings hold the same names, in any order, have the same
  classes and give every class the same one-hot vector.
\<close>

theorem class_order_sorted:
  assumes "load_image_paths_labels e1 g1 p1 = Inr g1'" and "listdir e1 p1 = Some listed1"
    and "load_image_paths_labels e2 g2 p2 = Inr g2'" and "listdir e2 p2 = Some listed2"
    and "set listed1 = set listed2"
  shows "classes g1' = sorted_list_of_set (set listed1) \<and>
         (\<forall>c \<in> set listed1. \<forall>k < length (classes g1').
            (encode (classes g1') c ! k = 1) = (sorted_list_of_set (set listed1) ! k = c)) \<and>
         classes g2' = classes g1' \<and>
         (\<forall>c. encode (classes g2') c = encode (classes g1') c)"
proof -
  from load_image_paths_labels_Inr[OF assms(1)] assms(2)
  have c1: "classes g1' = np_unique listed1" by auto
  from load_image_paths_labels_Inr[OF assms(3)] assms(4)
  have c2: "classes g2' = np_unique listed2" by auto
  have s1: "classes g1' = sorted_list_of_set (set listed1)"
    by (simp add: c1 np_unique_sorted_list)
  have s2: "classes g2' = classes g1'"
    by (simp add: c1 c2 np_unique_sorted_list assms(5))
  have d: "distinct (classes g1')" "set (classes g1') = set listed1"
    by (simp_all add: c1 np_unique_props)
  have hot: "(encode (classes g1') c ! k = 1) = (classes g1' ! k = c)"
    if "c \<in> set listed1" "k < length (classes g1')" for c k
    using that d index_of_nth[OF d(1) that(2)] nth_index_of[of c "classes g1'"]
    by (auto simp: encode_def nth_one_hot)
  show ?thesis
    using s1 s2 hot by simp
qed

theorem class_order_sorted_witness:
  "\<exists>g1 g2. load_image_paths_labels sample_env (sample_generator False) ''data'' = Inr g1 \<and>
     load_image_paths_labels sample_env_relisted (sample_generator False) ''data'' = Inr g2 \<and>
     listdir sample_env ''data'' = Some [''dog'', ''cat''] \<and>
     listdir sample_env_relisted ''data'' = Some [''cat'', ''dog''] \<and>
     classes g1 = [''cat'', ''dog''] \<and> classes g2 = classes g1 \<and>
     encode (classes g2) ''dog'' = encode (classes g1) ''dog''"
proof -
  have s: "set [''dog'', ''cat''] = set [''cat'', ''dog'']" by auto
  show ?thesis
    using class_order_sorted[OF sample_load sample_listing sample_reload sample_relisting s,
        of "sample_generator False" "sample_generator False"]
      sample_load[of "sample_generator False"] sample_reload[of "sample_generator False"]
      sample_listing sample_relisting
    by simp
qed

text \<open>
  Claim C6. After \<open>load_image_paths_labels\<close> the sample \<open>i\<close> has the path \<open>paths ! i\<close> and
  the label \<open>encode classes (names ! i)\<close>, where \<open>names ! i\<close> is the class directory the
  path was found in. Every one-hot vector is as wide as there are classes, its 1 stands at
  the position of the class among the classes, the position map is a bijection between
  the class names and the positions, distinct classes have distinct vectors, and two
  samples carry the same vector exactly when they are of the same class.
\<close>

theorem label_encoding_bijective:
  assumes "load_image_paths_labels e g p = Inr g'"
    and "listdir e p = Some listed"
    and "scan_classes e p listed = Inr (paths, names)"
  shows "image_paths g' = paths \<and> length names = length paths \<and>
         image_labels g' = map (encode (classes g')) names \<and>
         set (classes g') = set listed \<and> distinct (classes g') \<and>
         length (classes g') = card (set listed) \<and>
         bij_betw (index_of (classes g')) (set listed) {0..<length (classes g')} \<and>
         inj_on (encode (classes g')) (set listed) \<and>
         (\<forall>c \<in> set listed. length (encode (classes g') c) = length (classes g') \<and>
            (\<forall>k < length (classes g').
               encode (classes g') c ! k = (if k = index_of (classes g') c then 1 else 0))) \<and>
         (\<forall>i < length paths. \<forall>j < length paths.
            (names ! i = names ! j) = (image_labels g' ! i = image_labels g' ! j))"
proof -
  from load_image_paths_labels_Inr[OF assms(1)] assms(2,3)
  have g': "g' = g\<lparr>classes := np_unique listed, image_paths := paths,
                  image_labels := map (encode (np_unique listed)) names\<rparr>"
    and len: "length paths = length names" and sub: "set names \<subseteq> set listed"
    by auto
  let ?cs = "np_unique listed"
  have cs: "set ?cs = set listed" "distinct ?cs" by (simp_all add: np_unique_props)
  have card: "length ?cs = card (set listed)"
    using cs by (metis distinct_card)
  have bij: "bij_betw (index_of ?cs) (set listed) {0..<length ?cs}"
    using bij_betw_index_of[OF cs(2)] by (simp add: cs(1))
  have inj: "inj_on (encode ?cs) (set listed)"
  proof (rule inj_onI)
    fix a b assume ab: "a \<in> set listed" "b \<in> set listed" "encode ?cs a = encode ?cs b"
    then have "index_of ?cs a = index_of ?cs b"
      unfolding encode_def using one_hot_inj[of "index_of ?cs a" "length ?cs" "index_of ?cs b"]
      by (simp add: index_of_less cs(1))
    then show "a = b" using ab(1,2) inj_on_index_of[of ?cs] by (simp add: cs(1) inj_on_def)
  qed
  have cells: "\<forall>c \<in> set listed. length (encode ?cs c) = length ?cs \<and>
            (\<forall>k < length ?cs. encode ?cs c ! k = (if k = index_of ?cs c then 1 else 0))"
    by (simp add: encode_def length_one_hot nth_one_hot)
  have same: "\<forall>i < length paths. \<forall>j < length paths.
            (names ! i = names ! j) = (map (encode ?cs) names ! i = map (encode ?cs) names ! j)"
    using inj sub len by (auto simp: inj_on_def subset_iff)
  show ?thesis
    unfolding g' using len cs card bij inj cells same by simp
qed

theorem label_encoding_bijective_witness:
  "\<exists>g'. load_image_paths_labels sample_env (sample_generator False) ''data'' = Inr g' \<and>
     image_labels g' = map (encode (classes g')) [''dog'', ''dog'', ''dog'', ''cat'', ''cat''] \<and>
     length (classes g') = card (set [''dog'', ''cat'']) \<and>
     bij_betw (index_of (classes g')) (set [''dog'', ''cat'']) {0..<length (classes g')} \<and>
     inj_on (encode (classes g')) (set [''dog'', ''cat''])"
  using label_encoding_bijective[OF sample_load sample_listing sample_scan, of "sample_generator False"]
    sample_load[of "sample_generator False"]
  by simp

subsection \<open>The constructor\<close>

lemma generator_init_Inr:
  assumes "generator_init e rng p B sh m = Inr (g, r)"
  shows "\<exists>g0 g1. load_image_paths_labels e g0 p = Inr g1 \<and> batch_size g1 = B \<and>
           shuffle_images g1 = sh \<and> image_min_side g1 = m \<and> B \<noteq> 0 \<and>
           create_image_groups e rng g1 = Inr (g, r) \<and>
           (\<forall>rng2. generator_init e rng2 p B sh m = create_image_groups e rng2 g1)"
proof -
  let ?g0 = "\<lparr>batch_size = B, shuffle_images = sh, image_min_side = m,
               classes = [], image_paths = [], image_labels = [],
               image_groups = [], label_groups = []\<rparr>"
  obtain g1 where l: "load_image_paths_labels e ?g0 p = Inr g1"
    and c: "create_image_groups e rng g1 = Inr (g, r)"
    using assms by (auto simp: generator_init_def split: sum.splits)
  from load_image_paths_labels_Inr[OF l]
  have f: "batch_size g1 = B \<and> shuffle_images g1 = sh \<and> image_min_side g1 = m" by auto
  have "B \<noteq> 0" using c f by (auto simp: create_image_groups_def Let_def split: prod.splits if_splits)
  moreover have "generator_init e rng2 p B sh m = create_image_groups e rng2 g1" for rng2
    using l by (simp add: generator_init_def)
  ultimately show ?thesis using l c f by blast
qed

lemma make_groups_eval:
  "0 < b \<Longrightarrow> make_groups xs b =
     map (\<lambda>k. map (\<lambda>j. xs ! ((k * nat b + j) mod length xs)) [0..<nat b])
       [0..<nat ((int (length xs) + b - 1) div b)]"
  by (rule nth_equalityI) (simp_all add: nth_make_groups, simp_all add: make_groups_def py_range_pos)

lemma sample_init:
  "generator_init sample_env rng ''data'' 2 False 24 =
     Inr (\<lparr>batch_size = 2, shuffle_images = False, image_min_side = 24,
           classes = [''cat'', ''dog''],
           image_paths = [''data/dog/d1'', ''data/dog/d2'', ''data/dog/d3'',
                          ''data/cat/c1'', ''data/cat/c2''],
           image_labels = [[0, 1], [0, 1], [0, 1], [1, 0], [1, 0]],
           image_groups = [[''data/dog/d1'', ''data/dog/d2''], [''data/dog/d3'', ''data/cat/c1''],
                           [''data/cat/c2'', ''data/dog/d1'']],
           label_groups = [[[0, 1], [0, 1]], [[0, 1], [1, 0]], [[1, 0], [0, 1]]]\<rparr>, rng)"
  by (simp add: generator_init_def sample_load create_image_groups_Inr make_groups_eval upt_conv_Cons)

text \<open>
  Claim C8. The constructor fails with an OSError when the directory cannot be listed; it
  fails when none of the listed entries is a directory that can be listed (with ValueError
  from the encoder's \<open>fit\<close> when nothing is listed, with an OSError otherwise); and it
  never returns a generator whose paths and labels differ in number: whenever it returns,
  the two lists have the same length.
\<close>

theorem construction_fails_or_counts_agree:
  "(listdir e p = None \<longrightarrow> generator_init e rng p B sh m = Inl OSError) \<and>
   (\<forall>listed. listdir e p = Some listed \<and> (\<forall>c \<in> set listed. listdir e (path_join p c) = None) \<longrightarrow>
      generator_init e rng p B sh m = Inl (if listed = [] then ValueError else OSError)) \<and>
   (\<forall>g r. generator_init e rng p B sh m = Inr (g, r) \<longrightarrow>
      length (image_paths g) = length (image_labels g))"
proof (intro conjI allI impI)
  assume "listdir e p = None"
  then show "generator_init e rng p B sh m = Inl OSError"
    by (simp add: generator_init_def load_image_paths_labels_def)
next
  fix listed
  assume a: "listdir e p = Some listed \<and> (\<forall>c \<in> set listed. listdir e (path_join p c) = None)"
  have "scan_classes e p listed = Inl OSError" if "listed \<noteq> []"
    using that a by (cases listed) (simp_all add: Let_def)
  then show "generator_init e rng p B sh m = Inl (if listed = [] then ValueError else OSError)"
    using a by (simp add: generator_init_def load_image_paths_labels_def fit_def)
next
  fix g r
  assume a: "generator_init e rng p B sh m = Inr (g, r)"
  from generator_init_Inr[OF a] obtain g0 g1 where
    l: "load_image_paths_labels e g0 p = Inr g1" and b: "batch_size g1 = B" "B \<noteq> 0"
    and c: "create_image_groups e rng g1 = Inr (g, r)" by blast
  from load_image_paths_labels_Inr[OF l]
  have "length (image_paths g1) = length (image_labels g1)" by auto
  then show "length (image_paths g) = length (image_labels g)"
    using c b by (auto simp: create_image_groups_Inr length_np_shuffle)
qed

theorem construction_fails_or_counts_agree_witness:
  "generator_init sample_env 7 ''nowhere'' 2 False 24 = Inl OSError \<and>
   generator_init sample_env 7 ''data/dog'' 2 False 24 = Inl OSError \<and>
   (\<exists>g r. generator_init sample_env 7 ''data'' 2 False 24 = Inr (g, r) \<and>
      length (image_paths g) = length (image_labels g))"
proof -
  have 1: "listdir sample_env ''nowhere'' = None"
    by (simp add: sample_env_def sample_listdir_def)
  have 2: "listdir sample_env ''data/dog'' = Some [''d1'', ''d2'', ''d3''] \<and>
           (\<forall>c \<in> set [''d1'', ''d2'', ''d3'']. listdir sample_env (path_join ''data/dog'' c) = None)"
    by (simp add: sample_env_def sample_listdir_def path_join_def)
  note t1 = construction_fails_or_counts_agree[of sample_env "''nowhere''" 7 2 False 24]
  note t2 = construction_fails_or_counts_agree[of sample_env "''data/dog''" 7 2 False 24]
  note t3 = construction_fails_or_counts_agree[of sample_env "''data''" 7 2 False 24]
  have a: "generator_init sample_env 7 ''nowhere'' 2 False 24 = Inl OSError"
    using t1 1 by blast
  have "generator_init sample_env 7 ''data/dog'' 2 False 24 =
          Inl (if [''d1'', ''d2'', ''d3''] = [] then ValueError else OSError)"
    using t2 2 by blast
  then have b: "generator_init sample_env 7 ''data/dog'' 2 False 24 = Inl OSError" by simp
  have c: "\<exists>g r. generator_init sample_env 7 ''data'' 2 False 24 = Inr (g, r) \<and>
      length (image_paths g) = length (image_labels g)"
    using t3 sample_init[of 7] by blast
  from a b c show ?thesis by blast
qed

subsection \<open>The shuffle\<close>

lemma snd_shuffle_from:
  "length xs = length ys \<Longrightarrow> snd (shuffle_from rint k s xs) = snd (shuffle_from rint k s ys)"
proof (induction k arbitrary: s xs ys)
  case 0
  then show ?case by simp
next
  case (Suc k)
  obtain j s' where r: "rint s (Suc k) = (j, s')" by (cases "rint s (Suc k)")
  have "snd (shuffle_from rint k s' (xs[Suc k := xs ! j, j := xs ! Suc k])) =
        snd (shuffle_from rint k s' (ys[Suc k := ys ! j, j := ys ! Suc k]))"
    using Suc.prems by (intro Suc.IH) simp
  then show ?case by (simp add: r)
qed

lemma shuffle_from_zip:
  assumes "\<forall>s m. fst (rint s m) \<le> m" and "length xs = length ys" and "k < length xs"
  shows "fst (shuffle_from rint k s (zip xs ys)) =
           zip (fst (shuffle_from rint k s xs)) (fst (shuffle_from rint k s ys))"
  using assms(2,3)
proof (induction k arbitrary: s xs ys)
  case 0
  then show ?case by simp
next
  case (Suc k)
  obtain j s' where r: "rint s (Suc k) = (j, s')" by (cases "rint s (Suc k)")
  have j: "j \<le> Suc k" using assms(1) r by (metis fst_conv)
  let ?xs = "xs[Suc k := xs ! j, j := xs ! Suc k]"
  let ?ys = "ys[Suc k := ys ! j, j := ys ! Suc k]"
  have z: "(zip xs ys)[Suc k := zip xs ys ! j, j := zip xs ys ! Suc k] = zip ?xs ?ys"
    using Suc.prems j by (simp add: zip_update)
  have "fst (shuffle_from rint k s' (zip ?xs ?ys)) =
          zip (fst (shuffle_from rint k s' ?xs)) (fst (shuffle_from rint k s' ?ys))"
    using Suc.prems by (intro Suc.IH) simp_all
  then show ?case by (simp add: r z)
qed

lemma mset_shuffle_from:
  assumes "\<forall>s m. fst (rint s m) \<le> m" and "k < length xs"
  shows "mset (fst (shuffle_from rint k s xs)) = mset xs"
  using assms(2)
proof (induction k arbitrary: s xs)
  case 0
  then show ?case by simp
next
  case (Suc k)
  obtain j s' where r: "rint s (Suc k) = (j, s')" by (cases "rint s (Suc k)")
  have j: "j \<le> Suc k" using assms(1) r by (metis fst_conv)
  let ?xs = "xs[Suc k := xs ! j, j := xs ! Suc k]"
  have "mset (fst (shuffle_from rint k s' ?xs)) = mset ?xs"
    using Suc.prems by (intro Suc.IH) simp
  also have "mset ?xs = mset xs"
    using Suc.prems j by (simp add: mset_swap)
  finally show ?case by (simp add: r)
qed

lemma np_shuffle_zip:
  assumes "draws_in_range e" and "length xs = length ys"
  shows "fst (np_shuffle e s (zip xs ys)) = zip (fst (np_shuffle e s xs)) (fst (np_shuffle e s ys))"
proof (cases "xs = []")
  case True
  then show ?thesis using assms(2) by (simp add: np_shuffle_def)
next
  case False
  then have "length xs - 1 < length xs" by (cases xs) simp_all
  then show ?thesis
    using assms shuffle_from_zip[of "random_interval e" xs ys "length xs - 1" s]
    by (simp add: np_shuffle_def draws_in_range_def)
qed

lemma mset_np_shuffle:
  assumes "draws_in_range e"
  shows "mset (fst (np_shuffle e s xs)) = mset xs"
proof (cases "xs = []")
  case True
  then show ?thesis by (simp add: np_shuffle_def)
next
  case False
  then have "length xs - 1 < length xs" by (cases xs) simp_all
  then show ?thesis
    using assms mset_shuffle_from[of "random_interval e" "length xs - 1" xs s]
    by (simp add: np_shuffle_def draws_in_range_def)
qed


lemma sample_draws: "draws_in_range sample_env"
proof -
  have "nat (x mod (int m + 1)) \<le> m" for x m
    using pos_mod_bound[of "int m + 1" x] by linarith
  then show ?thesis
    by (simp add: draws_in_range_def sample_env_def sample_random_interval_def Let_def)
qed

lemma sample_shuffle_paths:
  "np_shuffle sample_env 4321 [''data/dog/d1'', ''data/dog/d2'', ''data/dog/d3'',
                               ''data/cat/c1'', ''data/cat/c2''] =
    ([''data/cat/c2'', ''data/dog/d2'', ''data/dog/d3'', ''data/cat/c1'', ''data/dog/d1''], 1913379357)"
  by code_simp

lemma sample_shuffle_labels:
  "np_shuffle sample_env 4321 [[0, 1], [0, 1], [0, 1], [1, 0], [1, 0::real]] =
    ([[1, 0], [0, 1], [0, 1], [1, 0], [0, 1]], 1913379357)"
  by code_simp

lemma sample_init_shuffled:
  "generator_init sample_env rng ''data'' 2 True 24 =
     Inr (\<lparr>batch_size = 2, shuffle_images = True, image_min_side = 24,
           classes = [''cat'', ''dog''],
           image_paths = [''data/cat/c2'', ''data/dog/d2'', ''data/dog/d3'',
                          ''data/cat/c1'', ''data/dog/d1''],
           image_labels = [[1, 0], [0, 1], [0, 1], [1, 0], [0, 1]],
           image_groups = [[''data/cat/c2'', ''data/dog/d2''], [''data/dog/d3'', ''data/cat/c1''],
                           [''data/dog/d1'', ''data/cat/c2'']],
           label_groups = [[[1, 0], [0, 1]], [[0, 1], [1, 0]], [[0, 1], [1, 0]]]\<rparr>, 1913379357)"
proof -
  have s: "seed_state sample_env 4321 = 4321" by (simp add: sample_env_def)
  show ?thesis
    by (simp add: generator_init_def sample_load create_image_groups_Inr s
        sample_shuffle_paths sample_shuffle_labels make_groups_eval upt_conv_Cons)
qed


text \<open>
  Claim C5. Let the constructor return the generator \<open>g\<close> for a directory whose scan gives
  the paths \<open>paths\<close> with the class names \<open>names\<close>. With shuffling, the pairs of path and
  label of \<open>g\<close> are the scanned pairs under one permutation (the shuffle of the list of
  pairs from the seed 4321), so every path still stands beside the label of its class;
  the constructor returns this same \<open>g\<close> from every state of the global random generator
  (a second construction gives the same order); without shuffling, paths and labels are in
  scan order.
\<close>

theorem shuffle_keeps_pairs:
  assumes "draws_in_range e"
    and "generator_init e rng p B sh m = Inr (g, rng')"
    and "listdir e p = Some listed"
    and "scan_classes e p listed = Inr (paths, names)"
  shows "(sh \<longrightarrow> zip (image_paths g) (image_labels g) =
                 fst (np_shuffle e (seed_state e 4321) (zip paths (map (encode (classes g)) names)))) \<and>
         mset (zip (image_paths g) (image_labels g)) = mset (zip paths (map (encode (classes g)) names)) \<and>
         (\<forall>i < length (image_paths g). \<exists>k < length paths.
            image_paths g ! i = paths ! k \<and> image_labels g ! i = encode (classes g) (names ! k)) \<and>
         (\<forall>rng2. \<exists>r2. generator_init e rng2 p B sh m = Inr (g, r2)) \<and>
         (\<not> sh \<longrightarrow> image_paths g = paths \<and> image_labels g = map (encode (classes g)) names)"
proof -
  from generator_init_Inr[OF assms(2)] obtain g0 g1 where
    l: "load_image_paths_labels e g0 p = Inr g1" and b: "batch_size g1 = B" "B \<noteq> 0"
    and sh: "shuffle_images g1 = sh"
    and c: "create_image_groups e rng g1 = Inr (g, rng')"
    and any: "\<forall>rng2. generator_init e rng2 p B sh m = create_image_groups e rng2 g1" by blast
  let ?labels = "map (encode (np_unique listed)) names"
  from load_image_paths_labels_Inr[OF l] assms(3,4)
  have g1: "g1 = g0\<lparr>classes := np_unique listed, image_paths := paths, image_labels := ?labels\<rparr>"
    and len: "length paths = length names" by auto
  have f1: "classes g1 = np_unique listed" "image_paths g1 = paths" "image_labels g1 = ?labels"
    by (simp_all add: g1)
  have nz: "batch_size g1 \<noteq> 0" using b by simp
  have cl: "classes g = np_unique listed"
    and ps: "image_paths g = (if sh then fst (np_shuffle e (seed_state e 4321) paths) else paths)"
    and ls: "image_labels g = (if sh then fst (np_shuffle e (seed_state e 4321) ?labels) else ?labels)"
    using c sh f1 unfolding create_image_groups_Inr[OF nz] by auto
  have z: "zip (image_paths g) (image_labels g) =
             (if sh then fst (np_shuffle e (seed_state e 4321) (zip paths ?labels)) else zip paths ?labels)"
    using len by (simp add: ps ls np_shuffle_zip[OF assms(1)])
  have m: "mset (zip (image_paths g) (image_labels g)) = mset (zip paths ?labels)"
    by (simp add: z mset_np_shuffle[OF assms(1)])
  have lg: "length (image_labels g) = length (image_paths g)"
    using len by (simp add: ps ls length_np_shuffle)
  have idx: "\<exists>k < length paths. image_paths g ! i = paths ! k \<and>
               image_labels g ! i = encode (classes g) (names ! k)"
    if "i < length (image_paths g)" for i
  proof -
    have "(image_paths g ! i, image_labels g ! i) \<in> set (zip (image_paths g) (image_labels g))"
      using that lg by (metis in_set_zip fst_conv snd_conv)
    then have "(image_paths g ! i, image_labels g ! i) \<in> set (zip paths ?labels)"
      using m by (metis set_mset_mset)
    then obtain k where "k < length paths" "paths ! k = image_paths g ! i"
      "?labels ! k = image_labels g ! i"
      by (auto simp: in_set_zip)
    then show ?thesis using len by (auto simp: cl)
  qed
  have det: "\<exists>r2. generator_init e rng2 p B sh m = Inr (g, r2)" for rng2
  proof -
    have "generator_init e rng2 p B sh m = create_image_groups e rng2 g1"
      using any by simp
    moreover have "\<exists>r2. create_image_groups e rng2 g1 = Inr (g, r2)"
      using c unfolding create_image_groups_Inr[OF nz] by auto
    ultimately show ?thesis by simp
  qed
  have A: "sh \<longrightarrow> zip (image_paths g) (image_labels g) =
                 fst (np_shuffle e (seed_state e 4321) (zip paths (map (encode (classes g)) names)))"
    using z by (simp only: cl) simp
  have B: "mset (zip (image_paths g) (image_labels g)) =
             mset (zip paths (map (encode (classes g)) names))"
    using m by (simp only: cl)
  have E: "\<not> sh \<longrightarrow> image_paths g = paths \<and> image_labels g = map (encode (classes g)) names"
    using ps ls by (simp only: cl) simp
  from A B idx det E show ?thesis by blast
qed


theorem shuffle_keeps_pairs_witness:
  "\<exists>g r. generator_init sample_env 7 ''data'' 2 True 24 = Inr (g, r) \<and>
     image_paths g = [''data/cat/c2'', ''data/dog/d2'', ''data/dog/d3'',
                      ''data/cat/c1'', ''data/dog/d1''] \<and>
     mset (zip (image_paths g) (image_labels g)) =
       mset (zip [''data/dog/d1'', ''data/dog/d2'', ''data/dog/d3'', ''data/cat/c1'', ''data/cat/c2'']
              (map (encode (classes g)) [''dog'', ''dog'', ''dog'', ''cat'', ''cat''])) \<and>
     (\<exists>r2. generator_init sample_env 99 ''data'' 2 True 24 = Inr (g, r2))"
proof -
  obtain g r where i: "generator_init sample_env 7 ''data'' 2 True 24 = Inr (g, r)"
    and p: "image_paths g = [''data/cat/c2'', ''data/dog/d2'', ''data/dog/d3'',
                             ''data/cat/c1'', ''data/dog/d1'']"
    using sample_init_shuffled[of 7] by simp
  note t = shuffle_keeps_pairs[OF sample_draws i sample_listing sample_scan]
  from t have m: "mset (zip (image_paths g) (image_labels g)) =
       mset (zip [''data/dog/d1'', ''data/dog/d2'', ''data/dog/d3'', ''data/cat/c1'', ''data/cat/c2'']
              (map (encode (classes g)) [''dog'', ''dog'', ''dog'', ''cat'', ''cat'']))"
    by blast
  from t have d: "\<exists>r2. generator_init sample_env 99 ''data'' 2 True 24 = Inr (g, r2)"
    by blast
  from i p m d show ?thesis by blast
qed

subsection \<open>Batch assembly\<close>

lemma py_max_Max: "xs \<noteq> [] \<Longrightarrow> py_max xs = Inr (Max (set xs))"
  by (cases xs) (simp_all add: Max.set_eq_fold[symmetric])

lemma copy_images_cells:
  assumes "i + length grp \<le> slots b"
    and "\<forall>img \<in> set grp. height img \<le> rows b \<and> width img \<le> cols b \<and> channels img \<le> chans b"
  shows "\<exists>b'. copy_images i grp b = Inr b' \<and>
           slots b' = slots b \<and> rows b' = rows b \<and> cols b' = cols b \<and> chans b' = chans b \<and>
           (\<forall>n y x k. at4 b' n y x k =
              (if i \<le> n \<and> n < i + length grp \<and> y < height (grp ! (n - i)) \<and>
                  x < width (grp ! (n - i)) \<and> k < channels (grp ! (n - i))
               then at3 (grp ! (n - i)) y x k else at4 b n y x k))"
  using assms
proof (induction grp arbitrary: i b)
  case Nil
  then show ?case by simp
next
  case (Cons img rest)
  let ?b = "b\<lparr>at4 := (\<lambda>n y x k.
                if n = i \<and> y < height img \<and> x < width img \<and> k < channels img
                then at3 img y x k else at4 b n y x k)\<rparr>"
  have step: "copy_images i (img # rest) b = copy_images (Suc i) rest ?b"
    using Cons.prems by (simp add: not_le not_less)
  have "\<exists>b'. copy_images (Suc i) rest ?b = Inr b' \<and>
           slots b' = slots ?b \<and> rows b' = rows ?b \<and> cols b' = cols ?b \<and> chans b' = chans ?b \<and>
           (\<forall>n y x k. at4 b' n y x k =
              (if Suc i \<le> n \<and> n < Suc i + length rest \<and> y < height (rest ! (n - Suc i)) \<and>
                  x < width (rest ! (n - Suc i)) \<and> k < channels (rest ! (n - Suc i))
               then at3 (rest ! (n - Suc i)) y x k else at4 ?b n y x k))"
    using Cons.prems by (intro Cons.IH) simp_all
  then obtain b' where b': "copy_images (Suc i) rest ?b = Inr b'"
    "slots b' = slots b" "rows b' = rows b" "cols b' = cols b" "chans b' = chans b"
    and cells: "\<And>n y x k. at4 b' n y x k =
              (if Suc i \<le> n \<and> n < Suc i + length rest \<and> y < height (rest ! (n - Suc i)) \<and>
                  x < width (rest ! (n - Suc i)) \<and> k < channels (rest ! (n - Suc i))
               then at3 (rest ! (n - Suc i)) y x k else at4 ?b n y x k)"
    by auto
  have "at4 b' n y x k =
          (if i \<le> n \<and> n < i + length (img # rest) \<and> y < height ((img # rest) ! (n - i)) \<and>
              x < width ((img # rest) ! (n - i)) \<and> k < channels ((img # rest) ! (n - i))
           then at3 ((img # rest) ! (n - i)) y x k else at4 b n y x k)" for n y x k
  proof (cases "n = i")
    case True
    then show ?thesis by (simp add: cells)
  next
    case False
    then have "(img # rest) ! (n - i) = rest ! (n - Suc i)" if "i \<le> n"
    proof -
      have "n - i = Suc (n - Suc i)" using that False by arith
      then show ?thesis by simp
    qed
    then show ?thesis using False by (auto simp: cells)
  qed
  then show ?case using step b' by simp
qed

text \<open>
  Claim C2. For a group of at least one and at most \<open>batch_size\<close> images (every group the
  generator builds has exactly \<open>batch_size\<close>), \<open>construct_image_batch\<close> returns an array of
  shape (\<open>batch_size\<close>, largest height, largest width, largest channel count) of the group,
  in which the slot \<open>n\<close> holds the image \<open>n\<close> in the cells \<open>[0:h, 0:w, 0:c]\<close> of its own
  shape, unchanged, and every other cell is zero.
\<close>

theorem batch_is_zero_padded:
  assumes "image_group \<noteq> []" and "int (length image_group) \<le> batch_size g"
  shows "\<exists>b. construct_image_batch g image_group = Inr b \<and>
           slots b = nat (batch_size g) \<and>
           rows b = Max (height ` set image_group) \<and>
           cols b = Max (width ` set image_group) \<and>
           chans b = Max (channels ` set image_group) \<and>
           (\<forall>n y x k. at4 b n y x k =
              (if n < length image_group \<and> y < height (image_group ! n) \<and>
                  x < width (image_group ! n) \<and> k < channels (image_group ! n)
               then at3 (image_group ! n) y x k else 0))"
proof -
  let ?H = "Max (height ` set image_group)" and ?W = "Max (width ` set image_group)"
    and ?C = "Max (channels ` set image_group)"
  let ?z = "np_zeros (nat (batch_size g)) ?H ?W ?C"
  have m: "py_max (map height image_group) = Inr ?H" "py_max (map width image_group) = Inr ?W"
    "py_max (map channels image_group) = Inr ?C"
    using assms(1) by (simp_all add: py_max_Max)
  have fits: "\<forall>img \<in> set image_group. height img \<le> rows ?z \<and> width img \<le> cols ?z \<and> channels img \<le> chans ?z"
    by (simp add: np_zeros_def)
  have room: "0 + length image_group \<le> slots ?z"
    using assms(2) by (simp add: np_zeros_def)
  from copy_images_cells[OF room fits] obtain b where
    b: "copy_images 0 image_group ?z = Inr b" "slots b = slots ?z" "rows b = rows ?z"
      "cols b = cols ?z" "chans b = chans ?z"
    and cells: "\<forall>n y x k. at4 b n y x k =
              (if 0 \<le> n \<and> n < 0 + length image_group \<and> y < height (image_group ! (n - 0)) \<and>
                  x < width (image_group ! (n - 0)) \<and> k < channels (image_group ! (n - 0))
               then at3 (image_group ! (n - 0)) y x k else at4 ?z n y x k)"
    by blast
  have "construct_image_batch g image_group = Inr b"
    using assms(2) b(1) by (simp add: construct_image_batch_def m)
  moreover have "\<forall>n y x k. at4 b n y x k =
              (if n < length image_group \<and> y < height (image_group ! n) \<and>
                  x < width (image_group ! n) \<and> k < channels (image_group ! n)
               then at3 (image_group ! n) y x k else 0)"
    using cells by (simp add: np_zeros_def)
  ultimately show ?thesis using b(2-5) by (simp add: np_zeros_def)
qed


theorem batch_is_zero_padded_witness:
  "\<exists>b. construct_image_batch (sample_generator False) sample_group = Inr b \<and>
     slots b = 2 \<and> rows b = 2 \<and> cols b = 2 \<and> chans b = 3 \<and>
     at4 b 0 0 1 2 = 1 \<and> at4 b 0 1 0 0 = 0 \<and> at4 b 1 1 0 0 = - 1 \<and> at4 b 1 0 1 0 = 0"
proof -
  have 1: "sample_group \<noteq> []" by (simp add: sample_group_def)
  have 2: "int (length sample_group) \<le> batch_size (sample_generator False)"
    by (simp add: sample_group_def sample_generator_def)
  from batch_is_zero_padded[OF 1 2] obtain b where
    b: "construct_image_batch (sample_generator False) sample_group = Inr b"
    and shape: "slots b = nat (batch_size (sample_generator False))"
      "rows b = Max (height ` set sample_group)" "cols b = Max (width ` set sample_group)"
      "chans b = Max (channels ` set sample_group)"
    and cells: "\<And>n y x k. at4 b n y x k =
              (if n < length sample_group \<and> y < height (sample_group ! n) \<and>
                  x < width (sample_group ! n) \<and> k < channels (sample_group ! n)
               then at3 (sample_group ! n) y x k else 0)"
    by blast
  have "slots b = 2" "rows b = 2" "cols b = 2" "chans b = 3"
    using shape by (simp_all add: sample_group_def sample_generator_def)
  moreover have "at4 b 0 0 1 2 = 1" "at4 b 0 1 0 0 = 0" "at4 b 1 1 0 0 = - 1" "at4 b 1 0 1 0 = 0"
    by (simp_all add: cells sample_group_def)
  ultimately show ?thesis using b by blast
qed

subsection \<open>Normalisation\<close>

lemma sample_rounds32: "rounds_to_float32 sample_env"
  by (simp add: rounds_to_float32_def sample_env_def)

lemma sample_rounds64: "rounds_to_float64 sample_env"
  by (simp add: rounds_to_float64_def sample_env_def)

lemma round32_exact:
  "rounds_to_float32 e \<Longrightarrow> round32 e 0 = 0 \<and> round32 e 1 = 1 \<and> round32 e 2 = 2 \<and> round32 e (- 1) = - 1"
proof -
  assume r: "rounds_to_float32 e"
  have "round32 e (of_int n) = of_int n" if "\<bar>n\<bar> \<le> 2 ^ 24" for n :: int
    using r that by (simp add: rounds_to_float32_def)
  from this[of 0] this[of 1] this[of 2] this[of "- 1"] show ?thesis by simp
qed

text \<open>
  Claim C4, as amended. The normalisation of a raw pixel \<open>x\<close> in \<open>0..255\<close> is the float32
  value of \<open>x / 127.5 - 1\<close> (each operation rounded). It sends 0 to exactly \<open>-1\<close> and 255 to
  exactly \<open>1\<close>, and every normalised value lies in the closed range \<open>[-1, 1]\<close>. The claim's
  half-open range \<open>[-1, 1)\<close> fails at the pixel 255, where the quotient 2 and the
  difference 1 are float32 numbers and no rounding takes place.
\<close>

theorem normalised_range_closed:
  assumes "rounds_to_float32 e"
  shows "preprocess_pixel e 0 = - 1 \<and> preprocess_pixel e 255 = 1 \<and>
         (\<forall>p. - 1 \<le> preprocess_pixel e p \<and> preprocess_pixel e p \<le> 1) \<and>
         (\<forall>x r c k. height (preprocess_image e x) = height x \<and>
            width (preprocess_image e x) = width x \<and> channels (preprocess_image e x) = channels x \<and>
            at3 (preprocess_image e x) r c k =
              round32 e (round32 e (real (unat (at3 x r c k)) / 127.5) - 1))"
proof -
  note ex = round32_exact[OF assms]
  have mono: "round32 e x \<le> round32 e y" if "x \<le> y" for x y
    using assms that by (simp add: rounds_to_float32_def)
  have range: "- 1 \<le> preprocess_pixel e p \<and> preprocess_pixel e p \<le> 1" for p
  proof -
    define v :: real where "v = astype_float32 p"
    have "unat p < 2 ^ LENGTH(8)" by (rule unsigned_less)
    then have "unat p \<le> 255" by simp
    then have "real (unat p) \<le> real 255"
      by (simp only: of_nat_le_iff)
    then have "0 \<le> v" "v \<le> 255"
      by (simp_all only: v_def astype_float32_def of_nat_0_le_iff of_nat_numeral)
    then have q: "0 \<le> v / 127.5" "v / 127.5 \<le> 2" by simp_all
    have "0 \<le> round32 e (v / 127.5)" "round32 e (v / 127.5) \<le> 2"
      using mono[OF q(1)] mono[OF q(2)] ex by simp_all
    then have "- 1 \<le> round32 e (v / 127.5) - 1" "round32 e (v / 127.5) - 1 \<le> 1"
      by simp_all
    then have "- 1 \<le> round32 e (round32 e (v / 127.5) - 1)"
      "round32 e (round32 e (v / 127.5) - 1) \<le> 1"
      using mono[of "- 1" "round32 e (v / 127.5) - 1"] mono[of "round32 e (v / 127.5) - 1" 1] ex
      by simp_all
    then show ?thesis
      by (simp only: preprocess_pixel_def v_def)
  qed
  have "preprocess_pixel e 0 = - 1" "preprocess_pixel e 255 = 1"
    using ex by (simp_all add: preprocess_pixel_def astype_float32_def)
  then show ?thesis
    using range by (simp add: preprocess_image_def preprocess_pixel_def astype_float32_def)
qed

theorem normalised_range_closed_witness:
  "preprocess_pixel sample_env 0 = - 1 \<and> preprocess_pixel sample_env 255 = 1 \<and>
   - 1 \<le> preprocess_pixel sample_env 51 \<and> preprocess_pixel sample_env 51 \<le> 1"
  using normalised_range_closed[OF sample_rounds32] by blast

theorem normalised_value_one_counterexample:
  "\<not> (- 1 \<le> preprocess_pixel sample_env 255 \<and> preprocess_pixel sample_env 255 < 1)"
  by (simp add: preprocess_pixel_def astype_float32_def sample_env_def)

subsection \<open>Resizing\<close>

lemma round64_int: "rounds_to_float64 e \<Longrightarrow> \<bar>n\<bar> \<le> 2 ^ 53 \<Longrightarrow> round64 e (of_int n) = of_int n"
  by (simp add: rounds_to_float64_def)

lemma round64_near:
  "rounds_to_float64 e \<Longrightarrow> 1 \<le> x \<Longrightarrow> x \<le> 2 ^ 1000 \<Longrightarrow> \<bar>round64 e x - x\<bar> \<le> x / 2 ^ 53"
  by (simp add: rounds_to_float64_def)

lemma scaled_side_bounds:
  fixes a b m :: int
  assumes R: "rounds_to_float64 e"
    and a: "1 \<le> a" "a < m" and m: "m < 2 ^ 31" and b: "a \<le> b" "b < 2 ^ 31"
  defines "s \<equiv> round64 e (of_int m / of_int a)"
  shows "of_int m - 1 \<le> round64 e (of_int b * s)"
    and "b = a \<Longrightarrow> round64 e (of_int b * s) < of_int m + 1"
proof -
  define q :: real where "q = of_int m / of_int a"
  define M :: real where "M = of_int m"
  define A :: real where "A = of_int a"
  define B :: real where "B = of_int b"
  have A: "1 \<le> A" "A < M" "A \<le> B" "B \<le> 2 ^ 31" and M: "2 \<le> M" "M \<le> 2 ^ 31"
  proof -
    have "2 \<le> m" "m \<le> 2 ^ 31" "b \<le> 2 ^ 31" using a m b by simp_all
    then show "2 \<le> M" "M \<le> 2 ^ 31" "B \<le> 2 ^ 31"
      unfolding M_def B_def by simp_all
    show "1 \<le> A" "A < M" "A \<le> B"
      using a b unfolding A_def M_def B_def by simp_all
  qed
  have Aq: "A * q = M" using A by (simp add: q_def A_def M_def)
  have q: "1 \<le> q" "q \<le> M"
    using A unfolding q_def A_def[symmetric] M_def[symmetric]
    by (simp_all add: field_simps)
  have q1000: "q \<le> 2 ^ 1000"
  proof -
    have "(2::real) ^ 31 \<le> 2 ^ 1000" by (rule power_increasing) simp_all
    then show ?thesis using q M by linarith
  qed
  have es: "q - q / 2 ^ 53 \<le> s \<and> s \<le> q + q / 2 ^ 53"
    using round64_near[OF R q(1) q1000]
    unfolding s_def q_def[symmetric] abs_diff_le_iff .
  have s0: "0 \<le> s" "s \<le> 2 * q" using es q by simp_all
  have "A * (q - q / 2 ^ 53) \<le> A * s" "A * s \<le> A * (q + q / 2 ^ 53)"
    using es A by (simp_all add: mult_left_mono)
  then have As: "M - M / 2 ^ 53 \<le> A * s" "A * s \<le> M + M / 2 ^ 53"
    using Aq by (simp_all add: algebra_simps flip: times_divide_eq_right)
  have BA: "A * s \<le> B * s" using A s0 by (intro mult_right_mono) simp_all
  have Bs_lo: "M - M / 2 ^ 53 \<le> B * s" using As BA by linarith
  have Bs1: "1 \<le> B * s" using Bs_lo M by simp
  have "B * s \<le> 2 ^ 31 * (2 * 2 ^ 31)"
    using A s0 q M by (intro mult_mono) simp_all
  also have "\<dots> \<le> (2::real) ^ 1000"
  proof -
    have "(2::real) ^ 63 \<le> 2 ^ 1000" by (rule power_increasing) simp_all
    then show ?thesis by simp
  qed
  finally have Bs1000: "B * s \<le> 2 ^ 1000" .
  have ep: "B * s - B * s / 2 ^ 53 \<le> round64 e (B * s) \<and>
            round64 e (B * s) \<le> B * s + B * s / 2 ^ 53"
    using round64_near[OF R Bs1 Bs1000] unfolding abs_diff_le_iff .
  show "of_int m - 1 \<le> round64 e (of_int b * s)"
    using ep Bs_lo M unfolding M_def[symmetric] B_def[symmetric]
    by simp
  show "round64 e (of_int b * s) < of_int m + 1" if "b = a"
  proof -
    have "B = A" using that by (simp add: A_def B_def)
    then have "B * s \<le> M + M / 2 ^ 53" using As by simp
    then show ?thesis
      using ep M unfolding M_def[symmetric] B_def[symmetric]
      by simp
  qed
qed


lemma py_int_floor: "0 \<le> x \<Longrightarrow> py_int x = \<lfloor>x\<rfloor>"
  by (simp add: py_int_def)

lemma resize_image_unscaled:
  assumes R: "rounds_to_float64 e"
    and dims: "0 < height img" "0 < width img" "height img < 2 ^ 31" "width img < 2 ^ 31"
    and m: "m \<le> int (min (height img) (width img))"
  shows "resize_image e img m =
           Inr (\<lparr>height = height img, width = width img, channels = channels img,
                 at3 = cv2_resize e img (width img) (height img)\<rparr>, 1, 1)"
proof -
  have b: "\<bar>int (height img)\<bar> \<le> 2 ^ 53" "\<bar>int (width img)\<bar> \<le> 2 ^ 53"
    using dims by simp_all
  have fh: "float_mul e (int (height img)) 1 = real (height img)"
    and fw: "float_mul e (int (width img)) 1 = real (width img)"
    using round64_int[OF R b(1)] round64_int[OF R b(2)]
    by (simp_all add: float_mul_def to_float_def)
  have one: "round64 e 1 = 1" using round64_int[OF R, of 1] by simp
  have nm: "\<not> min (int (height img)) (int (width img)) < m"
    using m by (simp add: min_def split: if_splits)
  show ?thesis
    using dims by (simp add: resize_image_def Let_def nm fh fw py_int_floor true_div_def one)
qed

lemma resize_image_scaled:
  assumes R: "rounds_to_float64 e"
    and dims: "0 < height img" "0 < width img" "height img < 2 ^ 31" "width img < 2 ^ 31"
    and m: "int (min (height img) (width img)) < m" "m < 2 ^ 31"
  defines "s \<equiv> round64 e (of_int m / real (min (height img) (width img)))"
  defines "new_h \<equiv> \<lfloor>round64 e (real (height img) * s)\<rfloor>"
  defines "new_w \<equiv> \<lfloor>round64 e (real (width img) * s)\<rfloor>"
  shows "resize_image e img m =
           Inr (\<lparr>height = nat new_h, width = nat new_w, channels = channels img,
                 at3 = cv2_resize e img (nat new_w) (nat new_h)\<rparr>,
                round64 e (of_int new_h / real (height img)),
                round64 e (of_int new_w / real (width img)))"
    and "m - 1 \<le> new_h" and "m - 1 \<le> new_w"
    and "height img \<le> width img \<Longrightarrow> new_h \<le> m"
    and "width img \<le> height img \<Longrightarrow> new_w \<le> m"
proof -
  let ?a = "int (min (height img) (width img))"
  let ?h = "int (height img)" and ?w = "int (width img)"
  have a: "1 \<le> ?a" "?a < m" "?a \<le> ?h" "?a \<le> ?w" "?h < 2 ^ 31" "?w < 2 ^ 31"
    using dims m by simp_all
  note sb = scaled_side_bounds[OF R a(1,2) m(2)]
  have ph: "of_int m - 1 \<le> round64 e (real (height img) * s)"
    using sb(1)[OF a(3) a(5)] by (simp add: s_def)
  have pw: "of_int m - 1 \<le> round64 e (real (width img) * s)"
    using sb(1)[OF a(4) a(6)] by (simp add: s_def)
  have m2: "2 \<le> m" using a(1,2) by linarith
  then have pos: "0 \<le> round64 e (real (height img) * s)" "0 \<le> round64 e (real (width img) * s)"
    using ph pw by simp_all
  show nh: "m - 1 \<le> new_h" and nw: "m - 1 \<le> new_w"
    using ph pw by (simp_all add: new_h_def new_w_def le_floor_iff)
  show "new_h \<le> m" if "height img \<le> width img"
  proof -
    have "?h = ?a" using that by simp
    from sb(2)[OF a(3) a(5) this]
    have "round64 e (real (height img) * s) < of_int m + 1" by (simp add: s_def)
    then show ?thesis by (simp add: new_h_def floor_le_iff)
  qed
  show "new_w \<le> m" if "width img \<le> height img"
  proof -
    have "?w = ?a" using that by simp
    from sb(2)[OF a(4) a(6) this]
    have "round64 e (real (width img) * s) < of_int m + 1" by (simp add: s_def)
    then show ?thesis by (simp add: new_w_def floor_le_iff)
  qed
  have b: "\<bar>?h\<bar> \<le> 2 ^ 53" "\<bar>?w\<bar> \<le> 2 ^ 53" "\<bar>m\<bar> \<le> 2 ^ 53"
    using dims m m2 by simp_all
  have tf: "to_float e ?h = of_int ?h" "to_float e ?w = of_int ?w" "to_float e m = of_int m"
    using round64_int[OF R b(1)] round64_int[OF R b(2)] round64_int[OF R b(3)]
    by (simp_all add: to_float_def)
  have lt: "min ?h ?w < m" using m(1) by (simp add: min_def split: if_splits)
  have scale: "height img < width img \<Longrightarrow> float_div e (to_float e m) ?h = Inr s"
    "\<not> height img < width img \<Longrightarrow> float_div e (to_float e m) ?w = Inr s"
    using dims by (auto simp: float_div_def tf s_def min_def)
  have fm: "py_int (float_mul e ?h s) = new_h" "py_int (float_mul e ?w s) = new_w"
    using pos by (simp_all add: float_mul_def tf py_int_floor new_h_def new_w_def)
  have newpos: "0 < new_h" "0 < new_w" using nh nw m2 by simp_all
  show "resize_image e img m =
           Inr (\<lparr>height = nat new_h, width = nat new_w, channels = channels img,
                 at3 = cv2_resize e img (nat new_w) (nat new_h)\<rparr>,
                round64 e (of_int new_h / real (height img)),
                round64 e (of_int new_w / real (width img)))"
    using dims newpos
    by (simp add: resize_image_def Let_def lt scale fm true_div_def)
qed




subsection \<open>The sequence interface\<close>

lemma py_index_IndexError:
  "py_index xs i = Inl err \<longleftrightarrow>
     err = IndexError \<and> (i < - int (length xs) \<or> int (length xs) \<le> i)"
  by (auto simp: py_index_def)

lemma py_index_Inr:
  "- int (length xs) \<le> i \<Longrightarrow> i < int (length xs) \<Longrightarrow>
   py_index xs i = Inr (xs ! nat (if i < 0 then int (length xs) + i else i))"
  by (auto simp: py_index_def)

lemma resize_image_errors:
  "resize_image e img m = Inl err \<Longrightarrow> err = ZeroDivisionError \<or> err = CvError"
  by (auto simp: resize_image_def Let_def float_div_def true_div_def split: if_splits sum.splits)

lemma load_images_errors:
  "load_images e g ps = Inl err \<Longrightarrow> err = OSError \<or> err = ZeroDivisionError \<or> err = CvError"
proof (induction ps)
  case Nil
  then show ?case by simp
next
  case (Cons a ps)
  then show ?case
    using resize_image_errors
    by (auto split: option.splits sum.splits prod.splits)
qed

lemma load_images_length: "load_images e g ps = Inr images \<Longrightarrow> length images = length ps"
  by (induction ps arbitrary: images) (auto split: option.splits sum.splits prod.splits)

lemma construct_image_batch_returns:
  assumes "image_group \<noteq> []" and "int (length image_group) \<le> batch_size g"
  shows "\<exists>b. construct_image_batch g image_group = Inr b \<and> slots b = nat (batch_size g)"
proof -
  let ?H = "Max (height ` set image_group)" and ?W = "Max (width ` set image_group)"
    and ?C = "Max (channels ` set image_group)"
  let ?z = "np_zeros (nat (batch_size g)) ?H ?W ?C"
  have fits: "\<forall>img \<in> set image_group. height img \<le> rows ?z \<and> width img \<le> cols ?z \<and> channels img \<le> chans ?z"
    by (simp add: np_zeros_def)
  have room: "0 + length image_group \<le> slots ?z"
    using assms(2) by (simp add: np_zeros_def)
  from copy_images_cells[OF room fits] obtain b where
    "copy_images 0 image_group ?z = Inr b" "slots b = slots ?z" by blast
  then show ?thesis
    using assms by (simp add: construct_image_batch_def py_max_Max np_zeros_def)
qed

lemma make_groups_neg: "b < 0 \<Longrightarrow> make_groups xs b = []"
  by (simp add: make_groups_def py_range.simps[of 0])

lemma generator_init_groups:
  assumes "generator_init e rng p B sh m = Inr (g, rng')"
  shows "batch_size g = B \<and> B \<noteq> 0 \<and> image_min_side g = m \<and>
         image_groups g = make_groups (image_paths g) B \<and>
         label_groups g = make_groups (image_labels g) B \<and>
         length (image_labels g) = length (image_paths g)"
proof -
  from generator_init_Inr[OF assms] obtain g0 g1 where
    l: "load_image_paths_labels e g0 p = Inr g1" and b: "batch_size g1 = B" "B \<noteq> 0"
    and ms: "image_min_side g1 = m"
    and c: "create_image_groups e rng g1 = Inr (g, rng')" by blast
  have nz: "batch_size g1 \<noteq> 0" using b by simp
  from load_image_paths_labels_Inr[OF l]
  have len: "length (image_paths g1) = length (image_labels g1)" by auto
  show ?thesis
    using c b ms len unfolding create_image_groups_Inr[OF nz]
    by (auto simp: length_np_shuffle)
qed

lemma length_make_groups_cong:
  assumes "length xs = length ys" and "b \<noteq> 0"
  shows "length (make_groups xs b) = length (make_groups ys b)"
proof (cases "0 < b")
  case True
  then show ?thesis
    using length_make_groups[OF True, of xs] length_make_groups[OF True, of ys] assms(1) by simp
next
  case False
  then show ?thesis using assms(2) by (simp add: make_groups_neg)
qed

lemma make_groups_nonempty:
  assumes "k < length (make_groups xs b)"
  shows "0 < b \<and> length (make_groups xs b ! k) = nat b"
proof -
  have "0 < b"
  proof (rule ccontr)
    assume "\<not> 0 < b"
    then have "make_groups xs b = []"
      by (cases "b = 0") (simp_all add: make_groups_neg make_groups_def py_range.simps[of 0])
    then show False using assms by simp
  qed
  then show ?thesis using nth_make_groups[OF _ assms] by simp
qed


lemma generator_getitem_in_range:
  assumes "generator_init e rng p B sh m = Inr (g, rng')"
    and "- generator_len g \<le> i" and "i < generator_len g"
  defines "k \<equiv> nat (if i < 0 then generator_len g + i else i)"
  shows "k < length (image_groups g)"
    and "length (image_groups g ! k) = nat B" and "0 < B"
    and "image_groups g ! k =
           map (\<lambda>j. image_paths g ! ((k * nat B + j) mod length (image_paths g))) [0..<nat B]"
    and "label_groups g ! k =
           map (\<lambda>j. image_labels g ! ((k * nat B + j) mod length (image_labels g))) [0..<nat B]"
    and "generator_getitem e g i =
           (case load_images e g (image_groups g ! k) of
              Inl err \<Rightarrow> Inl err
            | Inr images \<Rightarrow>
                (case construct_image_batch g images of
                   Inl err \<Rightarrow> Inl err
                 | Inr image_batch \<Rightarrow> Inr ((image_batch, label_groups g ! k), g)))"
proof -
  note f = generator_init_groups[OF assms(1)]
  have ll: "length (label_groups g) = length (image_groups g)"
    using f length_make_groups_cong[of "image_labels g" "image_paths g" B] by simp
  show k: "k < length (image_groups g)"
    using assms(2,3) by (auto simp: k_def generator_len_def)
  have kg: "k < length (make_groups (image_paths g) B)" using k f by simp
  have kl: "k < length (make_groups (image_labels g) B)" using k f ll by simp
  from make_groups_nonempty[OF kg] show "length (image_groups g ! k) = nat B" and B: "0 < B"
    using f by simp_all
  show "image_groups g ! k =
           map (\<lambda>j. image_paths g ! ((k * nat B + j) mod length (image_paths g))) [0..<nat B]"
    using nth_make_groups[OF B kg] f by simp
  show "label_groups g ! k =
           map (\<lambda>j. image_labels g ! ((k * nat B + j) mod length (image_labels g))) [0..<nat B]"
    using nth_make_groups[OF B kl] f by simp
  have "py_index (image_groups g) i = Inr (image_groups g ! k)"
    "py_index (label_groups g) i = Inr (label_groups g ! k)"
    using assms(2,3) py_index_Inr[of "image_groups g" i] py_index_Inr[of "label_groups g" i]
    by (simp_all add: k_def generator_len_def ll)
  then show "generator_getitem e g i =
           (case load_images e g (image_groups g ! k) of
              Inl err \<Rightarrow> Inl err
            | Inr images \<Rightarrow>
                (case construct_image_batch g images of
                   Inl err \<Rightarrow> Inl err
                 | Inr image_batch \<Rightarrow> Inr ((image_batch, label_groups g ! k), g)))"
    by (simp add: generator_getitem_def)
qed

lemma sample_init_constructed:
  "generator_init sample_env rng ''data'' 2 False 24 = Inr (sample_constructed, rng)"
  by (simp only: sample_init sample_constructed_def)

lemma sample_load_images:
  "\<exists>a b. load_images sample_env sample_constructed [''data/dog/d3'', ''data/cat/c1''] = Inr [a, b]"
proof -
  let ?d3 = "preprocess_image sample_env (reverse_channels (sample_image 25 24))"
  let ?c1 = "preprocess_image sample_env (reverse_channels (sample_image 48 16))"
  have o: "image_open sample_env ''data/dog/d3'' = Some (sample_image 25 24)"
    "image_open sample_env ''data/cat/c1'' = Some (sample_image 48 16)"
    by (simp_all add: sample_env_def sample_image_open_def)
  have m: "image_min_side sample_constructed = 24" by (simp add: sample_constructed_def)
  have d3: "0 < height ?d3" "0 < width ?d3" "height ?d3 < 2 ^ 31" "width ?d3 < 2 ^ 31"
    "(24::int) \<le> int (min (height ?d3) (width ?d3))"
    by (simp_all add: preprocess_image_def reverse_channels_def sample_image_def)
  have c1: "0 < height ?c1" "0 < width ?c1" "height ?c1 < 2 ^ 31" "width ?c1 < 2 ^ 31"
    "int (min (height ?c1) (width ?c1)) < (24::int)" "(24::int) < 2 ^ 31"
    by (simp_all add: preprocess_image_def reverse_channels_def sample_image_def)
  note r1 = resize_image_unscaled[OF sample_rounds64 d3]
  note r2 = resize_image_scaled(1)[OF sample_rounds64 c1]
  show ?thesis
    by (simp add: o m r1 r2)
qed

text \<open>
  Claim C7, as amended. For a constructed generator, \<open>__getitem__\<close> raises IndexError exactly
  when the index is below \<open>-len\<close> or at least \<open>len\<close>. An index \<open>i\<close> with \<open>-len \<le> i < len\<close>
  addresses the group \<open>k = i\<close>, or \<open>k = len + i\<close> when \<open>i\<close> is negative. The call then fails
  only when loading an image of that group fails (never with IndexError); when the images
  load it returns the batch of \<open>batch_size\<close> slots built from them beside the label group
  \<open>k\<close>, the label rows of the samples of the group in order. The claim's range
  \<open>0 \<le> i < len\<close> fails at the index \<open>-2\<close>, which returns the group 1.
\<close>

theorem getitem_index_error:
  assumes "generator_init e rng p B sh m = Inr (g, rng')"
  shows "(generator_getitem e g i = Inl IndexError \<longleftrightarrow>
            i < - generator_len g \<or> generator_len g \<le> i) \<and>
         (- generator_len g \<le> i \<and> i < generator_len g \<longrightarrow>
            (let k = nat (if i < 0 then generator_len g + i else i) in
               k < length (image_groups g) \<and>
               image_groups g ! k =
                 map (\<lambda>j. image_paths g ! ((k * nat B + j) mod length (image_paths g))) [0..<nat B] \<and>
               label_groups g ! k =
                 map (\<lambda>j. image_labels g ! ((k * nat B + j) mod length (image_labels g))) [0..<nat B] \<and>
               (case load_images e g (image_groups g ! k) of
                  Inl err \<Rightarrow> generator_getitem e g i = Inl err \<and> err \<noteq> IndexError
                | Inr images \<Rightarrow>
                    \<exists>b. construct_image_batch g images = Inr b \<and> slots b = nat B \<and>
                        generator_getitem e g i = Inr ((b, label_groups g ! k), g))))"
proof (cases "- generator_len g \<le> i \<and> i < generator_len g")
  case False
  then have "py_index (image_groups g) i = Inl IndexError"
    by (auto simp: py_index_def generator_len_def)
  then have "generator_getitem e g i = Inl IndexError"
    by (simp add: generator_getitem_def)
  then show ?thesis using False by auto
next
  case True
  define k where "k = nat (if i < 0 then generator_len g + i else i)"
  note r = generator_getitem_in_range[OF assms, of i, folded k_def]
  have lo: "- generator_len g \<le> i" and hi: "i < generator_len g" using True by simp_all
  note r = r[OF lo hi]
  have bs: "batch_size g = B" using generator_init_groups[OF assms] by simp
  have tail: "case load_images e g (image_groups g ! k) of
                  Inl err \<Rightarrow> generator_getitem e g i = Inl err \<and> err \<noteq> IndexError
                | Inr images \<Rightarrow>
                    \<exists>b. construct_image_batch g images = Inr b \<and> slots b = nat B \<and>
                        generator_getitem e g i = Inr ((b, label_groups g ! k), g)"
  proof (cases "load_images e g (image_groups g ! k)")
    case (Inl err)
    then show ?thesis using r(6) load_images_errors[OF Inl] by auto
  next
    case (Inr images)
    have "length images = nat B" using load_images_length[OF Inr] r(2) by simp
    then have "images \<noteq> []" "int (length images) \<le> batch_size g"
      using r(3) bs by auto
    from construct_image_batch_returns[OF this] obtain b where
      "construct_image_batch g images = Inr b" "slots b = nat B" using bs by auto
    then show ?thesis using r(6) Inr by simp
  qed
  have ne: "generator_getitem e g i \<noteq> Inl IndexError"
    using tail by (auto split: sum.splits)
  show ?thesis
    using True ne r(1,4,5) tail unfolding Let_def k_def[symmetric] by simp
qed

theorem getitem_index_error_witness:
  "generator_getitem sample_env sample_constructed 3 = Inl IndexError \<and>
   generator_getitem sample_env sample_constructed (- 4) = Inl IndexError \<and>
   (\<exists>b. generator_getitem sample_env sample_constructed (- 2) =
          Inr ((b, [[0, 1], [1, 0]]), sample_constructed) \<and> slots b = 2)"
proof -
  note t = getitem_index_error[OF sample_init_constructed[of 7]]
  have n: "generator_len sample_constructed = 3"
    by (simp add: generator_len_def sample_constructed_def)
  have a: "generator_getitem sample_env sample_constructed 3 = Inl IndexError"
    using t[of 3] n by simp
  have b: "generator_getitem sample_env sample_constructed (- 4) = Inl IndexError"
    using t[of "- 4"] n by simp
  have g1: "image_groups sample_constructed ! 1 = [''data/dog/d3'', ''data/cat/c1'']"
    "label_groups sample_constructed ! 1 = [[0, 1], [1, 0]]"
    by (simp_all add: sample_constructed_def)
  obtain x y where l: "load_images sample_env sample_constructed
      [''data/dog/d3'', ''data/cat/c1''] = Inr [x, y]"
    using sample_load_images by blast
  have rng: "- generator_len sample_constructed \<le> - 2 \<and> - 2 < generator_len sample_constructed"
    using n by simp
  have k: "nat (if (- 2::int) < 0 then generator_len sample_constructed + - 2 else - 2) = 1"
    using n by simp
  from t[of "- 2", THEN conjunct2, rule_format, OF rng]
  have "case load_images sample_env sample_constructed (image_groups sample_constructed ! 1) of
          Inl err \<Rightarrow> generator_getitem sample_env sample_constructed (- 2) = Inl err \<and> err \<noteq> IndexError
        | Inr images \<Rightarrow>
            \<exists>b. construct_image_batch sample_constructed images = Inr b \<and> slots b = nat 2 \<and>
                generator_getitem sample_env sample_constructed (- 2) =
                  Inr ((b, label_groups sample_constructed ! 1), sample_constructed)"
    unfolding Let_def k by blast
  then have "\<exists>b. construct_image_batch sample_constructed [x, y] = Inr b \<and> slots b = nat 2 \<and>
                generator_getitem sample_env sample_constructed (- 2) =
                  Inr ((b, [[0, 1], [1, 0]]), sample_constructed)"
    unfolding g1 by (simp only: l sum.case)
  then have c: "\<exists>b. generator_getitem sample_env sample_constructed (- 2) =
          Inr ((b, [[0, 1], [1, 0]]), sample_constructed) \<and> slots b = 2"
    by auto
  from a b c show ?thesis by blast
qed

theorem getitem_negative_index_counterexample:
  "\<exists>g r b. generator_init sample_env 7 ''data'' 2 False 24 = Inr (g, r) \<and>
     generator_len g = 3 \<and>
     generator_getitem sample_env g (- 2) = Inr ((b, [[0, 1], [1, 0]]), g)"
proof -
  have n: "generator_len sample_constructed = 3"
    by (simp add: generator_len_def sample_constructed_def)
  have lo: "- generator_len sample_constructed \<le> - 2" and hi: "- 2 < generator_len sample_constructed"
    using n by simp_all
  note r = generator_getitem_in_range(6)[OF sample_init_constructed[of 7] lo hi]
  have k: "nat (if (- 2::int) < 0 then generator_len sample_constructed + - 2 else - 2) = 1"
    using n by simp
  have g1: "image_groups sample_constructed ! 1 = [''data/dog/d3'', ''data/cat/c1'']"
    "label_groups sample_constructed ! 1 = [[0, 1], [1, 0]]"
    by (simp_all add: sample_constructed_def)
  obtain x y where l: "load_images sample_env sample_constructed [''data/dog/d3'', ''data/cat/c1''] = Inr [x, y]"
    using sample_load_images by blast
  have "[x, y] \<noteq> []" "int (length [x, y]) \<le> batch_size sample_constructed"
    by (simp_all add: sample_constructed_def)
  from construct_image_batch_returns[OF this] obtain b where
    b: "construct_image_batch sample_constructed [x, y] = Inr b" by blast
  have "generator_getitem sample_env sample_constructed (- 2) =
          Inr ((b, [[0, 1], [1, 0]]), sample_constructed)"
    using r unfolding k g1 by (simp only: l b sum.case)
  with n sample_init_constructed[of 7] show ?thesis by blast
qed




end
